theory Spec2Isabelle
  imports Complex_Main "HOL-Library.AList" "HOL-Library.Log_Nat" "HOL-Library.Word"
begin

section \<open>Python floats\<close>

text \<open>
  A Python float is an IEEE 754 binary64 number: a finite value, an infinity or NaN.
  \<open>Fin r\<close> is the finite float of exact value \<open>r\<close>; the two zeros are not told apart
  (the program never looks at the sign of a zero). Arithmetic computes the exact result
  and rounds it to the nearest float, ties to even: \<open>round_real\<close> is that rounding on
  the 53-bit grid of the exponent of \<open>x\<close> (the grid of the exponent \<open>-1022\<close> below it,
  the subnormal range), and \<open>round_double\<close> turns a result of magnitude \<open>2^1024\<close> into
  an infinity.
\<close>

datatype pyfloat = Fin real | PInf | NInf | NaN

datatype py_error = TypeError | ValueError | OverflowError | ZeroDivisionError

text \<open>The exponent \<open>e\<close> with \<open>2^e \<le> x < 2^(e+1)\<close>, for \<open>x > 0\<close>.\<close>

definition ilog2 :: "real \<Rightarrow> int" where
  "ilog2 x = (if 1 \<le> x then bitlen \<lfloor>x\<rfloor> - 1 else - bitlen (\<lceil>1 / x\<rceil> - 1))"

definition round_half_even :: "real \<Rightarrow> int" where
  "round_half_even x =
     (if x - of_int \<lfloor>x\<rfloor> < 1 / 2 then \<lfloor>x\<rfloor>
      else if 1 / 2 < x - of_int \<lfloor>x\<rfloor> then \<lfloor>x\<rfloor> + 1
      else if even \<lfloor>x\<rfloor> then \<lfloor>x\<rfloor> else \<lfloor>x\<rfloor> + 1)"

definition ulp_of :: "real \<Rightarrow> real" where
  "ulp_of x = 2 powi (max (ilog2 \<bar>x\<bar>) (- 1022) - 52)"

definition round_real :: "real \<Rightarrow> real" where
  "round_real x = (if x = 0 then 0 else of_int (round_half_even (x / ulp_of x)) * ulp_of x)"

definition round_double :: "real \<Rightarrow> pyfloat" where
  "round_double x =
     (if 2 powi 1024 \<le> round_real x then PInf
      else if round_real x \<le> - (2 powi 1024) then NInf
      else Fin (round_real x))"

text \<open>\<open>a <= b\<close> on floats: false as soon as one side is NaN.\<close>

fun float_le :: "pyfloat \<Rightarrow> pyfloat \<Rightarrow> bool" where
  "float_le NaN b = False"
| "float_le a NaN = False"
| "float_le NInf b = True"
| "float_le a PInf = True"
| "float_le (Fin a) (Fin b) = (a \<le> b)"
| "float_le a b = False"

text \<open>
  \<open>a / b\<close>: Python raises \<open>ZeroDivisionError\<close> on a zero divisor, whatever the dividend;
  otherwise the IEEE quotient. \<open>a * b\<close> is the IEEE product and never raises.
\<close>

fun ieee_div :: "pyfloat \<Rightarrow> pyfloat \<Rightarrow> pyfloat" where
  "ieee_div NaN b = NaN"
| "ieee_div a NaN = NaN"
| "ieee_div (Fin a) (Fin b) = round_double (a / b)"
| "ieee_div (Fin a) b = Fin 0"
| "ieee_div PInf (Fin b) = (if 0 < b then PInf else NInf)"
| "ieee_div NInf (Fin b) = (if 0 < b then NInf else PInf)"
| "ieee_div a b = NaN"

definition float_div :: "pyfloat \<Rightarrow> pyfloat \<Rightarrow> py_error + pyfloat" where
  "float_div a b = (if b = Fin 0 then Inl ZeroDivisionError else Inr (ieee_div a b))"

fun float_mul :: "pyfloat \<Rightarrow> pyfloat \<Rightarrow> pyfloat" where
  "float_mul NaN b = NaN"
| "float_mul a NaN = NaN"
| "float_mul (Fin a) (Fin b) = round_double (a * b)"
| "float_mul (Fin a) PInf = (if a = 0 then NaN else if 0 < a then PInf else NInf)"
| "float_mul (Fin a) NInf = (if a = 0 then NaN else if 0 < a then NInf else PInf)"
| "float_mul PInf (Fin b) = (if b = 0 then NaN else if 0 < b then PInf else NInf)"
| "float_mul NInf (Fin b) = (if b = 0 then NaN else if 0 < b then NInf else PInf)"
| "float_mul PInf PInf = PInf"
| "float_mul NInf NInf = PInf"
| "float_mul a b = NInf"

text \<open>
  \<open>math.floor(x)\<close> and \<open>int(x)\<close> (which truncates towards zero): both raise
  \<open>OverflowError\<close> on an infinity and \<open>ValueError\<close> on NaN.
\<close>

fun float_floor :: "pyfloat \<Rightarrow> py_error + int" where
  "float_floor (Fin r) = Inr \<lfloor>r\<rfloor>"
| "float_floor NaN = Inl ValueError"
| "float_floor a = Inl OverflowError"

fun py_int :: "pyfloat \<Rightarrow> py_error + int" where
  "py_int (Fin r) = Inr (if 0 \<le> r then \<lfloor>r\<rfloor> else \<lceil>r\<rceil>)"
| "py_int NaN = Inl ValueError"
| "py_int a = Inl OverflowError"

text \<open>
  \<open>float(n)\<close> of an integer: the nearest float, and \<open>OverflowError\<close> when that
  is beyond the largest finite one.
\<close>

definition float_of_int :: "int \<Rightarrow> py_error + pyfloat" where
  "float_of_int n =
     (case round_double (of_int n) of
        Fin r \<Rightarrow> Inr (Fin r)
      | d \<Rightarrow> Inl OverflowError)"

section \<open>Values of the panel's JSON responses\<close>

text \<open>
  The panel client hands decoded JSON to the rest of the program: Python's \<open>None\<close>,
  booleans, unbounded integers, floats, strings, lists and dictionaries. A dictionary keeps
  its insertion order (\<open>values()\<close> and \<open>items()\<close> iterate in it), so it is an association
  list; \<open>d[k] = v\<close> is \<open>AList.update\<close>, which overwrites in place or appends.
\<close>

datatype json =
    JNull
  | JBool bool
  | JInt int
  | JFloat pyfloat
  | JStr string
  | JList "json list"
  | JDict "(string \<times> json) list"

type_synonym dict = "(string \<times> json) list"

section \<open>Usage classifier\<close>

text \<open>
  \<^verbatim>\<open>
  def compute_percent(used: float, total: float) -> Optional[int]:
      if total <= 0:
          return None
      return int(math.floor((used / total) * 100))
  \<close>
  The quotient and the product are float operations, and \<open>math.floor\<close> raises on an
  infinite or NaN product.
\<close>

definition compute_percent :: "pyfloat \<Rightarrow> pyfloat \<Rightarrow> py_error + int option" where
  "compute_percent used tot =
     (if float_le tot (Fin 0) then Inr None
      else (case float_div used tot of
              Inl e \<Rightarrow> Inl e
            | Inr q \<Rightarrow>
                (case float_floor (float_mul q (Fin 100)) of
                   Inl e \<Rightarrow> Inl e
                 | Inr n \<Rightarrow> Inr (Some n))))"

text \<open>
  \<^verbatim>\<open>
  def classify_level(pct: Optional[int], warn: int, critical: int) -> Optional[str]:
      if pct is None:
          return None
      if pct >= critical:
          return "critical"
      if pct >= warn:
          return "warn"
      return "ok"
  \<close>
\<close>

fun classify_level :: "int option \<Rightarrow> int \<Rightarrow> int \<Rightarrow> string option" where
  "classify_level None warn critical = None"
| "classify_level (Some pct) warn critical =
     (if pct \<ge> critical then Some ''critical''
      else if pct \<ge> warn then Some ''warn''
      else Some ''ok'')"

section \<open>Python's reading of JSON values\<close>

text \<open>Truthiness, as \<open>if x\<close>, \<open>not x\<close> and \<open>x or y\<close> test it.\<close>

fun truthy :: "json \<Rightarrow> bool" where
  "truthy JNull = False"
| "truthy (JBool b) = b"
| "truthy (JInt n) = (n \<noteq> 0)"
| "truthy (JFloat d) = (d \<noteq> Fin 0)"
| "truthy (JStr s) = (s \<noteq> [])"
| "truthy (JList xs) = (xs \<noteq> [])"
| "truthy (JDict d) = (d \<noteq> [])"

definition py_or :: "json \<Rightarrow> json \<Rightarrow> json" where
  "py_or a b = (if truthy a then a else b)"

text \<open>\<open>d.get(k)\<close>: the value, or \<open>None\<close> when the key is absent; \<open>k in d\<close>.\<close>

definition dict_get :: "dict \<Rightarrow> string \<Rightarrow> json" where
  "dict_get d k = (case map_of d k of None \<Rightarrow> JNull | Some v \<Rightarrow> v)"

definition has_key :: "dict \<Rightarrow> string \<Rightarrow> bool" where
  "has_key d k = (k \<in> set (map fst d))"

fun is_dict :: "json \<Rightarrow> bool" where
  "is_dict (JDict d) = True"
| "is_dict v = False"

text \<open>The dictionaries among the entries of a list, in order.\<close>

fun dict_entries :: "json list \<Rightarrow> dict list" where
  "dict_entries [] = []"
| "dict_entries (JDict d # xs) = d # dict_entries xs"
| "dict_entries (v # xs) = dict_entries xs"

text \<open>
  \<open>str(x)\<close>. Decimal digits for an integer, the text itself for a string; the rendering
  of floats, lists and dictionaries is Python's \<open>repr\<close>, a parameter here.
\<close>

definition digit_char :: "nat \<Rightarrow> char" where
  "digit_char d = ''0123456789'' ! d"

fun show_nat :: "nat \<Rightarrow> string" where
  "show_nat n =
     (if n < 10 then [digit_char n]
      else show_nat (n div 10) @ [digit_char (n mod 10)])"

definition show_int :: "int \<Rightarrow> string" where
  "show_int i = (if i < 0 then CHR ''-'' # show_nat (nat (- i)) else show_nat (nat i))"

fun py_str :: "(json \<Rightarrow> string) \<Rightarrow> json \<Rightarrow> string" where
  "py_str repr JNull = ''None''"
| "py_str repr (JBool b) = (if b then ''True'' else ''False'')"
| "py_str repr (JInt n) = show_int n"
| "py_str repr (JStr s) = s"
| "py_str repr v = repr v"

text \<open>
  \<open>float(x)\<close>, with the \<open>TypeError\<close>, \<open>ValueError\<close> or \<open>OverflowError\<close> it raises.
  The empty string is rejected; parsing any other string is Python's own, a parameter
  here (\<open>None\<close> where Python rejects the string).
\<close>

fun py_float :: "(string \<Rightarrow> pyfloat option) \<Rightarrow> json \<Rightarrow> py_error + pyfloat" where
  "py_float parse JNull = Inl TypeError"
| "py_float parse (JBool b) = Inr (Fin (if b then 1 else 0))"
| "py_float parse (JInt n) = float_of_int n"
| "py_float parse (JFloat d) = Inr d"
| "py_float parse (JStr s) =
     (if s = [] then Inl ValueError
      else (case parse s of None \<Rightarrow> Inl ValueError | Some d \<Rightarrow> Inr d))"
| "py_float parse (JList xs) = Inl TypeError"
| "py_float parse (JDict d) = Inl TypeError"

text \<open>
  \<^verbatim>\<open>
  def to_int(x: Any, default: int = 0) -> int:
      try:
          return int(float(x))
      except Exception:
          return default
  \<close>
\<close>

definition to_int :: "(string \<Rightarrow> pyfloat option) \<Rightarrow> json \<Rightarrow> int \<Rightarrow> int" where
  "to_int parse x dflt =
     (case py_float parse x of
        Inl e \<Rightarrow> dflt
      | Inr d \<Rightarrow> (case py_int d of Inl e \<Rightarrow> dflt | Inr n \<Rightarrow> n))"

section \<open>Response normalizer\<close>

text \<open>
  \<^verbatim>\<open>
  def _normalize_vps_item(item):
      if "vps_id" in item and "vpsid" not in item:
          item["vpsid"] = item["vps_id"]
      if "id" in item and "vpsid" not in item:
          item["vpsid"] = item["id"]
      return item
  \<close>
\<close>

definition normalize_vps_item :: "dict \<Rightarrow> dict" where
  "normalize_vps_item item =
     (let item1 = (if has_key item ''vps_id'' \<and> \<not> has_key item ''vpsid''
                   then AList.update ''vpsid'' (dict_get item ''vps_id'') item
                   else item)
      in if has_key item1 ''id'' \<and> \<not> has_key item1 ''vpsid''
         then AList.update ''vpsid'' (dict_get item1 ''id'') item1
         else item1)"

text \<open>
  \<^verbatim>\<open>
  def _looks_like_vps(item):
      keys = set(item.keys())
      if "vpsid" in keys:
          return True
      if ("hostname" in keys or "name" in keys or "primary_ip" in keys or "ip" in keys)
              and ("uid" not in keys):
          return True
      return False
  \<close>
\<close>

definition looks_like_vps :: "dict \<Rightarrow> bool" where
  "looks_like_vps item =
     (if has_key item ''vpsid'' then True
      else if (has_key item ''hostname'' \<or> has_key item ''name''
               \<or> has_key item ''primary_ip'' \<or> has_key item ''ip'')
              \<and> \<not> has_key item ''uid'' then True
      else False)"

text \<open>
  The loop that the scan and the well-known-key pass both run over a sequence of entries:
  \<^verbatim>\<open>
  for it in v:
      if isinstance(it, dict):
          it = _normalize_vps_item(dict(it))
          if _looks_like_vps(it):
              out.append(it)
  \<close>
  (inside the scan every entry is a dictionary already).
\<close>

definition collect_items :: "json list \<Rightarrow> dict list" where
  "collect_items xs = filter looks_like_vps (map normalize_vps_item (dict_entries xs))"

text \<open>
  The deep scan. \<open>walk\<close> threads the two variables its closure mutates, the counter
  \<open>visited\<close> and the list \<open>found\<close>; \<open>walk_each\<close> is \<open>for i in x: walk(i)\<close> and
  \<open>walk_values\<close> is \<open>for v in x.values(): walk(v)\<close>.
  \<^verbatim>\<open>
  def walk(x):
      nonlocal visited, found
      if visited > limit or len(found) > 500:
          return
      visited += 1
      if isinstance(x, list):
          if x and all(isinstance(i, dict) for i in x):
              items = [...]
              if len(items) >= 1:
                  found.extend(items)
                  return
          for i in x:
              walk(i)
      elif isinstance(x, dict):
          if x and all(isinstance(v, dict) for v in x.values()):
              items = [...]
              if len(items) >= 1:
                  found.extend(items)
                  return
          for v in x.values():
              walk(v)
  \<close>
\<close>

function (sequential)
  walk :: "nat \<Rightarrow> json \<Rightarrow> nat \<times> dict list \<Rightarrow> nat \<times> dict list"
  and walk_each :: "nat \<Rightarrow> json list \<Rightarrow> nat \<times> dict list \<Rightarrow> nat \<times> dict list"
  and walk_values :: "nat \<Rightarrow> dict \<Rightarrow> nat \<times> dict list \<Rightarrow> nat \<times> dict list"
  where
  "walk limit (JList xs) (visited, found) =
     (if visited > limit \<or> length found > 500 then (visited, found)
      else if xs \<noteq> [] \<and> list_all is_dict xs \<and> length (collect_items xs) \<ge> 1
        then (visited + 1, found @ collect_items xs)
      else walk_each limit xs (visited + 1, found))"
| "walk limit (JDict d) (visited, found) =
     (if visited > limit \<or> length found > 500 then (visited, found)
      else if d \<noteq> [] \<and> list_all is_dict (map snd d)
              \<and> length (collect_items (map snd d)) \<ge> 1
        then (visited + 1, found @ collect_items (map snd d))
      else walk_values limit d (visited + 1, found))"
| "walk limit x (visited, found) =
     (if visited > limit \<or> length found > 500 then (visited, found)
      else (visited + 1, found))"
| "walk_each limit [] st = st"
| "walk_each limit (x # xs) st = walk_each limit xs (walk limit x st)"
| "walk_values limit [] st = st"
| "walk_values limit ((k, v) # kvs) st = walk_values limit kvs (walk limit v st)"
  by pat_completeness auto

text \<open>
  The scan ends on every JSON value: each call is on a strict part of the value of the
  call before.
\<close>

termination
  by (relation "measure (\<lambda>a. case a of
        Inl (limit, x, st) \<Rightarrow> size x
      | Inr (Inl (limit, xs, st)) \<Rightarrow> size_list size xs
      | Inr (Inr (limit, d, st)) \<Rightarrow> size_list (size_prod (\<lambda>k. 0) size) d)") auto

text \<open>
  \<^verbatim>\<open>
  uniq = {}
  for it in found:
      vid = str(it.get("vpsid") or "")
      if vid:
          uniq[vid] = it
  return list(uniq.values()) if uniq else found
  \<close>
\<close>

definition vid_of :: "(json \<Rightarrow> string) \<Rightarrow> dict \<Rightarrow> string" where
  "vid_of repr it = py_str repr (py_or (dict_get it ''vpsid'') (JStr ''''))"

fun dedupe_loop ::
  "(json \<Rightarrow> string) \<Rightarrow> dict list \<Rightarrow> (string \<times> dict) list \<Rightarrow> (string \<times> dict) list" where
  "dedupe_loop repr [] uniq = uniq"
| "dedupe_loop repr (it # rest) uniq =
     dedupe_loop repr rest
       (if vid_of repr it \<noteq> [] then AList.update (vid_of repr it) it uniq else uniq)"

definition dedupe_by_vpsid :: "(json \<Rightarrow> string) \<Rightarrow> dict list \<Rightarrow> dict list" where
  "dedupe_by_vpsid repr found =
     (let uniq = dedupe_loop repr found []
      in if uniq \<noteq> [] then map snd uniq else found)"

definition deep_find_vps_list :: "(json \<Rightarrow> string) \<Rightarrow> json \<Rightarrow> nat \<Rightarrow> dict list" where
  "deep_find_vps_list repr obj limit = dedupe_by_vpsid repr (snd (walk limit obj (0, [])))"

text \<open>
  \<^verbatim>\<open>
  def pick_vps_list(api_data):
      if not isinstance(api_data, dict):
          return []
      for key in ("vs", "vps", "data", "result"):
          v = api_data.get(key)
          if isinstance(v, list):
              out = [...]
              if out:
                  return out
          if isinstance(v, dict):
              out = [... over v.items() ...]
              if out:
                  return out
      return deep_find_vps_list(api_data)
  \<close>
  \<open>pick_loop\<close> is the \<open>for\<close> loop over the keys; \<open>None\<close> is falling out of it.
\<close>

fun pick_loop :: "dict \<Rightarrow> string list \<Rightarrow> dict list option" where
  "pick_loop api_data [] = None"
| "pick_loop api_data (key # keys) =
     (case dict_get api_data key of
        JList xs \<Rightarrow>
          (if collect_items xs \<noteq> [] then Some (collect_items xs)
           else pick_loop api_data keys)
      | JDict d \<Rightarrow>
          (if collect_items (map snd d) \<noteq> [] then Some (collect_items (map snd d))
           else pick_loop api_data keys)
      | _ \<Rightarrow> pick_loop api_data keys)"

definition pick_vps_list :: "(json \<Rightarrow> string) \<Rightarrow> json \<Rightarrow> dict list" where
  "pick_vps_list repr api_data =
     (case api_data of
        JDict d \<Rightarrow>
          (case pick_loop d [''vs'', ''vps'', ''data'', ''result''] of
             Some out \<Rightarrow> out
           | None \<Rightarrow> deep_find_vps_list repr api_data 5000)
      | _ \<Rightarrow> [])"

text \<open>
  What the well-known-key pass keeps of the value under a key, in the words of the
  specification: of a sequence, the entries that are mappings and, once normalised, look
  like a VM record; of a mapping, its values under the same filter; nothing of any other
  value.
\<close>

definition kept_entries :: "json list \<Rightarrow> dict list" where
  "kept_entries xs =
     concat (map (\<lambda>x. case x of
                         JDict e \<Rightarrow>
                           if looks_like_vps (normalize_vps_item e)
                           then [normalize_vps_item e] else []
                       | _ \<Rightarrow> []) xs)"

definition candidate :: "json \<Rightarrow> dict list" where
  "candidate v =
     (case v of
        JList xs \<Rightarrow> kept_entries xs
      | JDict d \<Rightarrow> kept_entries (map snd d)
      | _ \<Rightarrow> [])"

text \<open>
  \<^verbatim>\<open>
  def pick_vps_details(api_data):
      if not isinstance(api_data, dict):
          return {}
      for key in ("info", "vps", "vs", "data", "result"):
          v = api_data.get(key)
          if isinstance(v, dict) and any(k in v for k in
                  ("vpsid", "hostname", "name", "primary_ip", "ip")):
              return v
      return api_data
  \<close>
\<close>

fun details_loop :: "dict \<Rightarrow> string list \<Rightarrow> dict option" where
  "details_loop api_data [] = None"
| "details_loop api_data (key # keys) =
     (case dict_get api_data key of
        JDict v \<Rightarrow>
          (if list_ex (has_key v) [''vpsid'', ''hostname'', ''name'', ''primary_ip'', ''ip'']
           then Some v else details_loop api_data keys)
      | _ \<Rightarrow> details_loop api_data keys)"

definition pick_vps_details :: "json \<Rightarrow> dict" where
  "pick_vps_details api_data =
     (case api_data of
        JDict d \<Rightarrow>
          (case details_loop d [''info'', ''vps'', ''vs'', ''data'', ''result''] of
             Some v \<Rightarrow> v
           | None \<Rightarrow> d)
      | _ \<Rightarrow> [])"

section \<open>Usage extractor\<close>

text \<open>
  \<^verbatim>\<open>
  def extract_disk_usage(info):
      used = info.get("disk_used") or info.get("used_disk") or info.get("hdd_used") \
             or info.get("used_hdd")
      total = info.get("disk") or info.get("vps_disk") or info.get("hdd") \
              or info.get("total_hdd")
      try:
          return float(used), float(total)
      except Exception:
          return None, None
  \<close>
  and \<open>extract_bw_usage\<close> likewise over the bandwidth aliases.
\<close>

definition float_pair ::
  "(string \<Rightarrow> pyfloat option) \<Rightarrow> json \<Rightarrow> json \<Rightarrow> pyfloat option \<times> pyfloat option" where
  "float_pair parse used tot =
     (case py_float parse used of
        Inl e \<Rightarrow> (None, None)
      | Inr u \<Rightarrow>
          (case py_float parse tot of
             Inl e \<Rightarrow> (None, None)
           | Inr t \<Rightarrow> (Some u, Some t)))"

definition extract_disk_usage ::
  "(string \<Rightarrow> pyfloat option) \<Rightarrow> dict \<Rightarrow> pyfloat option \<times> pyfloat option" where
  "extract_disk_usage parse info =
     (let used = py_or (py_or (py_or (dict_get info ''disk_used'')
                   (dict_get info ''used_disk'')) (dict_get info ''hdd_used''))
                   (dict_get info ''used_hdd'');
          tot = py_or (py_or (py_or (dict_get info ''disk'')
                   (dict_get info ''vps_disk'')) (dict_get info ''hdd''))
                   (dict_get info ''total_hdd'')
      in float_pair parse used tot)"

definition extract_bw_usage ::
  "(string \<Rightarrow> pyfloat option) \<Rightarrow> dict \<Rightarrow> pyfloat option \<times> pyfloat option" where
  "extract_bw_usage parse info =
     (let used = py_or (py_or (py_or (dict_get info ''bandwidth_used'')
                   (dict_get info ''bw_used'')) (dict_get info ''used_bandwidth''))
                   (dict_get info ''used_bw'');
          tot = py_or (py_or (py_or (dict_get info ''bandwidth'')
                   (dict_get info ''bw'')) (dict_get info ''total_bandwidth''))
                   (dict_get info ''total_bw'')
      in float_pair parse used tot)"

section \<open>Alert state and the body of the poll loop\<close>

record alert_settings =
  alerts_enabled :: bool
  disk_warn :: int
  disk_critical :: int
  bw_warn :: int
  bw_critical :: int
  suspend_alerts :: bool

text \<open>
  A row of table \<open>alert_state\<close>, keyed by \<open>(user_id, profile_id, vps_id)\<close>. The user and
  profile identifiers of the loop are read from INTEGER columns of the database, so they
  are 64-bit integers.
\<close>

type_synonym sql_id = "64 word"

record alert_row =
  last_disk_level :: "string option"
  last_bw_level :: "string option"
  last_suspend :: "int option"

type_synonym alert_table = "sql_id \<times> sql_id \<times> string \<rightharpoonup> alert_row"

text \<open>
  \<open>get_alert_state\<close> returns three \<open>None\<close>s when the row does not exist.
  \<open>set_alert_state\<close> is an upsert on the primary key; binding an integer outside the
  64-bit range of an INTEGER column raises \<open>OverflowError\<close> and writes nothing.
\<close>

definition get_alert_state :: "alert_table \<Rightarrow> sql_id \<Rightarrow> sql_id \<Rightarrow> string \<Rightarrow> alert_row" where
  "get_alert_state db user_id profile_id vps_id =
     (case db (user_id, profile_id, vps_id) of
        None \<Rightarrow> \<lparr>last_disk_level = None, last_bw_level = None, last_suspend = None\<rparr>
      | Some r \<Rightarrow> r)"

definition fits_sql_integer :: "int option \<Rightarrow> bool" where
  "fits_sql_integer x =
     (case x of None \<Rightarrow> True | Some n \<Rightarrow> - (2 ^ 63) \<le> n \<and> n < 2 ^ 63)"

definition set_alert_state ::
  "alert_table \<Rightarrow> sql_id \<Rightarrow> sql_id \<Rightarrow> string \<Rightarrow> string option \<Rightarrow> string option \<Rightarrow> int option
     \<Rightarrow> py_error + alert_table" where
  "set_alert_state db user_id profile_id vps_id dl bl su =
     (if fits_sql_integer su
      then Inr (db((user_id, profile_id, vps_id) \<mapsto>
                  \<lparr>last_disk_level = dl, last_bw_level = bl, last_suspend = su\<rparr>))
      else Inl OverflowError)"

text \<open>
  What the loop sends, by kind, with the values its message text is formatted from:
  level, name, address and percentage.
\<close>

datatype notification =
    DiskAlert string json json "int option"
  | BwAlert string json json "int option"
  | SuspendNotice json json
  | UnsuspendNotice json json





text \<open>
  The state the loop works on: the table and the messages delivered so far.
  \<open>bot.send_message\<close> can raise; \<open>sink\<close> tells whether a delivery goes through. A raise
  anywhere in the body leaves it at once (\<open>Inl\<close>, with the state as it was then); the
  handler around the whole sweep catches it.
\<close>

record world =
  alert_state :: alert_table
  outbox :: "(sql_id \<times> notification) list"

definition send_message ::
  "(sql_id \<Rightarrow> notification \<Rightarrow> bool) \<Rightarrow> sql_id \<Rightarrow> notification \<Rightarrow> world \<Rightarrow> world + world" where
  "send_message sink user_id m w =
     (if sink user_id m then Inr (w\<lparr>outbox := outbox w @ [(user_id, m)]\<rparr>) else Inl w)"

definition and_then :: "world + world \<Rightarrow> (world \<Rightarrow> world + world) \<Rightarrow> world + world" where
  "and_then r f = (case r of Inl w \<Rightarrow> Inl w | Inr w \<Rightarrow> f w)"

text \<open>
  The local variables of the body, each as the source computes it:
  \<^verbatim>\<open>
  name = info.get("hostname") or info.get("name") or f"VPS {vps_id}"
  ip = info.get("primary_ip") or info.get("ip") or info.get("ipaddress") or "-"
  suspended = to_int(info.get("suspended") or info.get("is_suspended") or 0, 0)
  d_used, d_total = extract_disk_usage(info)
  b_used, b_total = extract_bw_usage(info)
  disk_pct = compute_percent(d_used or 0, d_total or 0) if (d_used and d_total) else None
  bw_pct = compute_percent(b_used or 0, b_total or 0) if (b_used and b_total) else None
  disk_level = classify_level(disk_pct, s["disk_warn"], s["disk_critical"])
  bw_level = classify_level(bw_pct, s["bw_warn"], s["bw_critical"])
  \<close>
  A percentage, and with it the level, is an error where \<open>compute_percent\<close> raises.
\<close>

definition vps_name :: "string \<Rightarrow> dict \<Rightarrow> json" where
  "vps_name vps_id info =
     py_or (py_or (dict_get info ''hostname'') (dict_get info ''name''))
       (JStr (''VPS '' @ vps_id))"

definition vps_ip :: "dict \<Rightarrow> json" where
  "vps_ip info =
     py_or (py_or (py_or (dict_get info ''primary_ip'') (dict_get info ''ip''))
       (dict_get info ''ipaddress'')) (JStr ''-'')"

definition suspended_of :: "(string \<Rightarrow> pyfloat option) \<Rightarrow> dict \<Rightarrow> int" where
  "suspended_of parse info =
     to_int parse
       (py_or (py_or (dict_get info ''suspended'') (dict_get info ''is_suspended'')) (JInt 0))
       0"

definition float_truthy :: "pyfloat option \<Rightarrow> bool" where
  "float_truthy x = (case x of None \<Rightarrow> False | Some d \<Rightarrow> d \<noteq> Fin 0)"

definition float_or_zero :: "pyfloat option \<Rightarrow> pyfloat" where
  "float_or_zero x = (case x of None \<Rightarrow> Fin 0 | Some d \<Rightarrow> (if d \<noteq> Fin 0 then d else Fin 0))"

definition usage_percent :: "pyfloat option \<times> pyfloat option \<Rightarrow> py_error + int option" where
  "usage_percent ut =
     (if float_truthy (fst ut) \<and> float_truthy (snd ut)
      then compute_percent (float_or_zero (fst ut)) (float_or_zero (snd ut))
      else Inr None)"

definition disk_pct_of :: "(string \<Rightarrow> pyfloat option) \<Rightarrow> dict \<Rightarrow> py_error + int option" where
  "disk_pct_of parse info = usage_percent (extract_disk_usage parse info)"

definition bw_pct_of :: "(string \<Rightarrow> pyfloat option) \<Rightarrow> dict \<Rightarrow> py_error + int option" where
  "bw_pct_of parse info = usage_percent (extract_bw_usage parse info)"

definition disk_level_of ::
  "(string \<Rightarrow> pyfloat option) \<Rightarrow> alert_settings \<Rightarrow> dict \<Rightarrow> py_error + string option" where
  "disk_level_of parse s info =
     (case disk_pct_of parse info of
        Inl e \<Rightarrow> Inl e
      | Inr pct \<Rightarrow> Inr (classify_level pct (disk_warn s) (disk_critical s)))"

definition bw_level_of ::
  "(string \<Rightarrow> pyfloat option) \<Rightarrow> alert_settings \<Rightarrow> dict \<Rightarrow> py_error + string option" where
  "bw_level_of parse s info =
     (case bw_pct_of parse info of
        Inl e \<Rightarrow> Inl e
      | Inr pct \<Rightarrow> Inr (classify_level pct (bw_warn s) (bw_critical s)))"

definition alerting :: "string option \<Rightarrow> bool" where
  "alerting level = (level = Some ''warn'' \<or> level = Some ''critical'')"

text \<open>
  The body of \<open>for v in vps_list\<close> from the point where the detail has been fetched:
  the locals above, in their order, and then
  \<^verbatim>\<open>
  prev = await get_alert_state(user_id, p["id"], vps_id)
  if disk_level in ("warn", "critical") and disk_level != prev["last_disk_level"]:
      await bot.send_message(user_id, ...)
  if bw_level in ("warn", "critical") and bw_level != prev["last_bw_level"]:
      await bot.send_message(user_id, ...)
  if s["suspend_alerts"]:
      if prev["last_suspend"] is not None:
          if suspended == 1 and prev["last_suspend"] == 0:
              await bot.send_message(user_id, ...)
          if suspended == 0 and prev["last_suspend"] == 1:
              await bot.send_message(user_id, ...)
  await set_alert_state(user_id, p["id"], vps_id, last_disk_level=disk_level,
                        last_bw_level=bw_level, last_suspend=suspended)
  \<close>
\<close>

definition process_vps ::
  "(sql_id \<Rightarrow> notification \<Rightarrow> bool) \<Rightarrow> (string \<Rightarrow> pyfloat option) \<Rightarrow> alert_settings
     \<Rightarrow> sql_id \<Rightarrow> sql_id \<Rightarrow> string \<Rightarrow> json \<Rightarrow> world \<Rightarrow> world + world" where
  "process_vps sink parse s user_id profile_id vps_id details w =
     (let info = pick_vps_details details;
          name = vps_name vps_id info;
          ip = vps_ip info;
          suspended = suspended_of parse info
      in
      case disk_pct_of parse info of
        Inl e \<Rightarrow> Inl w
      | Inr disk_pct \<Rightarrow>
      (case bw_pct_of parse info of
        Inl e \<Rightarrow> Inl w
      | Inr bw_pct \<Rightarrow>
      (let disk_level = classify_level disk_pct (disk_warn s) (disk_critical s);
           bw_level = classify_level bw_pct (bw_warn s) (bw_critical s);
           prev = get_alert_state (alert_state w) user_id profile_id vps_id
       in
       and_then
        (case disk_level of
           None \<Rightarrow> Inr w
         | Some l \<Rightarrow>
             if alerting disk_level \<and> disk_level \<noteq> last_disk_level prev
             then send_message sink user_id (DiskAlert l name ip disk_pct) w
             else Inr w)
        (\<lambda>w1.
       and_then
        (case bw_level of
           None \<Rightarrow> Inr w1
         | Some l \<Rightarrow>
             if alerting bw_level \<and> bw_level \<noteq> last_bw_level prev
             then send_message sink user_id (BwAlert l name ip bw_pct) w1
             else Inr w1)
        (\<lambda>w2.
       and_then
        (if suspend_alerts s then
           (case last_suspend prev of
              None \<Rightarrow> Inr w2
            | Some before \<Rightarrow>
                and_then
                  (if suspended = 1 \<and> before = 0
                   then send_message sink user_id (SuspendNotice name ip) w2
                   else Inr w2)
                  (\<lambda>w3.
                    if suspended = 0 \<and> before = 1
                    then send_message sink user_id (UnsuspendNotice name ip) w3
                    else Inr w3))
         else Inr w2)
        (\<lambda>w4.
       (case set_alert_state (alert_state w4) user_id profile_id vps_id
               disk_level bw_level (Some suspended) of
          Inl e \<Rightarrow> Inl w4
        | Inr db \<Rightarrow> Inr (w4\<lparr>alert_state := db\<rparr>))))))))"

text \<open>
  A second reading of the body, to compare with \<open>process_vps\<close>: the messages that are
  due for given levels and percentages, in the order the body sends them, delivered one
  after the other.
\<close>

definition disk_due ::
  "string \<Rightarrow> dict \<Rightarrow> alert_row \<Rightarrow> string option \<Rightarrow> int option \<Rightarrow> notification list" where
  "disk_due vps_id info prev disk_level disk_pct =
     (case disk_level of
        None \<Rightarrow> []
      | Some l \<Rightarrow>
          if alerting (Some l) \<and> Some l \<noteq> last_disk_level prev
          then [DiskAlert l (vps_name vps_id info) (vps_ip info) disk_pct]
          else [])"

definition bw_due ::
  "string \<Rightarrow> dict \<Rightarrow> alert_row \<Rightarrow> string option \<Rightarrow> int option \<Rightarrow> notification list" where
  "bw_due vps_id info prev bw_level bw_pct =
     (case bw_level of
        None \<Rightarrow> []
      | Some l \<Rightarrow>
          if alerting (Some l) \<and> Some l \<noteq> last_bw_level prev
          then [BwAlert l (vps_name vps_id info) (vps_ip info) bw_pct]
          else [])"

definition suspend_due ::
  "(string \<Rightarrow> pyfloat option) \<Rightarrow> alert_settings \<Rightarrow> string \<Rightarrow> dict \<Rightarrow> alert_row
     \<Rightarrow> notification list" where
  "suspend_due parse s vps_id info prev =
     (if suspend_alerts s then
        (case last_suspend prev of
           None \<Rightarrow> []
         | Some before \<Rightarrow>
             (if suspended_of parse info = 1 \<and> before = 0
              then [SuspendNotice (vps_name vps_id info) (vps_ip info)] else [])
             @ (if suspended_of parse info = 0 \<and> before = 1
                then [UnsuspendNotice (vps_name vps_id info) (vps_ip info)] else []))
      else [])"

fun send_all ::
  "(sql_id \<Rightarrow> notification \<Rightarrow> bool) \<Rightarrow> sql_id \<Rightarrow> notification list \<Rightarrow> world
     \<Rightarrow> world + world" where
  "send_all sink user_id [] w = Inr w"
| "send_all sink user_id (m # ms) w =
     and_then (send_message sink user_id m w) (send_all sink user_id ms)"

text \<open>The messages of \<open>w'\<close> that \<open>w\<close> did not have yet.\<close>

definition new_messages :: "world \<Rightarrow> world \<Rightarrow> notification list" where
  "new_messages w w' = map snd (drop (length (outbox w)) (outbox w'))"

text \<open>
  One turn of \<open>for v in vps_list\<close>: a record without identifier is skipped, and so is one
  whose detail request raises (\<open>fetch\<close> gives \<open>None\<close>); neither touches the state.
  \<^verbatim>\<open>
  vps_id = str(v.get("vpsid") or "")
  if not vps_id:
      continue
  try:
      details = await v_api_request(..., act="managevs", params={"vpsid": vps_id})
      info = pick_vps_details(details)
  except Exception:
      continue
  \<close>
\<close>

definition poll_vps ::
  "(sql_id \<Rightarrow> notification \<Rightarrow> bool) \<Rightarrow> (string \<Rightarrow> pyfloat option) \<Rightarrow> (json \<Rightarrow> string)
     \<Rightarrow> (string \<Rightarrow> json option) \<Rightarrow> alert_settings \<Rightarrow> sql_id \<Rightarrow> sql_id \<Rightarrow> dict \<Rightarrow> world
     \<Rightarrow> world + world" where
  "poll_vps sink parse repr fetch s user_id profile_id v w =
     (let vps_id = vid_of repr v
      in if vps_id = [] then Inr w
         else (case fetch vps_id of
                 None \<Rightarrow> Inr w
               | Some details \<Rightarrow> process_vps sink parse s user_id profile_id vps_id details w))"

fun poll_vps_list ::
  "(sql_id \<Rightarrow> notification \<Rightarrow> bool) \<Rightarrow> (string \<Rightarrow> pyfloat option) \<Rightarrow> (json \<Rightarrow> string)
     \<Rightarrow> (string \<Rightarrow> json option) \<Rightarrow> alert_settings \<Rightarrow> sql_id \<Rightarrow> sql_id \<Rightarrow> dict list \<Rightarrow> world
     \<Rightarrow> world + world" where
  "poll_vps_list sink parse repr fetch s user_id profile_id [] w = Inr w"
| "poll_vps_list sink parse repr fetch s user_id profile_id (v # vs) w =
     and_then (poll_vps sink parse repr fetch s user_id profile_id v w)
       (poll_vps_list sink parse repr fetch s user_id profile_id vs)"

section \<open>Properties of the classifier\<close>

text \<open>
  C3. \<open>classify_level\<close> returns \<open>None\<close> exactly for an unknown percentage; otherwise
  \<open>critical\<close> exactly when \<open>pct \<ge> critical\<close>, \<open>warn\<close> exactly when
  \<open>warn \<le> pct < critical\<close>, and \<open>ok\<close> exactly when \<open>pct\<close> is below both thresholds. Both
  comparisons are inclusive and the critical test comes first, for all integer thresholds,
  also when \<open>critical < warn\<close> (then the \<open>warn\<close> range is empty: 95 with warn 90 and
  critical 80 is critical).
\<close>

theorem classify_level_contract:
  "(classify_level pct warn critical = None) = (pct = None)
   \<and> (classify_level (Some p) warn critical = Some ''critical'') = (critical \<le> p)
   \<and> (classify_level (Some p) warn critical = Some ''warn'') = (warn \<le> p \<and> p < critical)
   \<and> (classify_level (Some p) warn critical = Some ''ok'') = (p < warn \<and> p < critical)
   \<and> classify_level (Some critical) warn critical = Some ''critical''
   \<and> classify_level (Some 95) 90 80 = Some ''critical''
   \<and> classify_level (Some 85) 90 80 = Some ''critical''"
  by (cases pct) auto
section \<open>Rounding to the nearest float\<close>

lemma ilog2_bounds:
  assumes "0 < x"
  shows "2 powi (ilog2 x) \<le> x" and "x < 2 powi (ilog2 x + 1)"
proof -
  show "2 powi (ilog2 x) \<le> x"
  proof (cases "1 \<le> x")
    case True
    then have n: "0 < \<lfloor>x\<rfloor>" by simp
    from bitlen_bounds [OF n] have "2 ^ nat (bitlen \<lfloor>x\<rfloor> - 1) \<le> \<lfloor>x\<rfloor>" ..
    then have "(2::real) ^ nat (bitlen \<lfloor>x\<rfloor> - 1) \<le> of_int \<lfloor>x\<rfloor>"
      by (metis of_int_le_iff of_int_numeral of_int_power)
    also have "\<dots> \<le> x" by simp
    finally have a: "(2::real) ^ nat (bitlen \<lfloor>x\<rfloor> - 1) \<le> x" .
    from n have "1 \<le> bitlen \<lfloor>x\<rfloor>" by (auto simp: bitlen_alt_def)
    then have "(2::real) powi (bitlen \<lfloor>x\<rfloor> - 1) = 2 ^ nat (bitlen \<lfloor>x\<rfloor> - 1)"
      by (simp add: power_int_nonneg_exp)
    with a True show ?thesis by (simp add: ilog2_def)
  next
    case False
    with assms have x1: "x < 1" by simp
    let ?k = "\<lceil>1 / x\<rceil>"
    from assms x1 have "1 < 1 / x" by simp
    then have k2: "2 \<le> ?k" by linarith
    then have km: "0 < ?k - 1" by simp
    from bitlen_bounds [OF km] have "?k - 1 < 2 ^ nat (bitlen (?k - 1))" ..
    then have "?k \<le> 2 ^ nat (bitlen (?k - 1))" by simp
    then have "of_int ?k \<le> (2::real) ^ nat (bitlen (?k - 1))"
      by (metis of_int_le_iff of_int_numeral of_int_power)
    moreover have "1 / x \<le> of_int ?k" by simp
    ultimately have "1 / x \<le> (2::real) ^ nat (bitlen (?k - 1))" by linarith
    with assms have "1 / (2::real) ^ nat (bitlen (?k - 1)) \<le> x"
      by (simp add: field_simps)
    moreover have "(2::real) powi (- bitlen (?k - 1)) = 1 / 2 ^ nat (bitlen (?k - 1))"
      using bitlen_nonneg [of "?k - 1"]
      by (simp add: power_int_minus_divide power_int_nonneg_exp)
    ultimately show ?thesis using False by (simp add: ilog2_def)
  qed
  show "x < 2 powi (ilog2 x + 1)"
  proof (cases "1 \<le> x")
    case True
    then have n: "0 < \<lfloor>x\<rfloor>" by simp
    from bitlen_bounds [OF n] have "\<lfloor>x\<rfloor> < 2 ^ nat (bitlen \<lfloor>x\<rfloor>)" ..
    then have "\<lfloor>x\<rfloor> + 1 \<le> 2 ^ nat (bitlen \<lfloor>x\<rfloor>)" by simp
    then have "of_int (\<lfloor>x\<rfloor> + 1) \<le> (2::real) ^ nat (bitlen \<lfloor>x\<rfloor>)"
      by (metis of_int_le_iff of_int_numeral of_int_power)
    moreover have "x < of_int (\<lfloor>x\<rfloor> + 1)" by linarith
    ultimately have "x < (2::real) ^ nat (bitlen \<lfloor>x\<rfloor>)" by linarith
    moreover have "(2::real) powi (bitlen \<lfloor>x\<rfloor>) = 2 ^ nat (bitlen \<lfloor>x\<rfloor>)"
      using bitlen_nonneg [of "\<lfloor>x\<rfloor>"] by (simp add: power_int_nonneg_exp)
    ultimately show ?thesis using True by (simp add: ilog2_def)
  next
    case False
    with assms have x1: "x < 1" by simp
    let ?k = "\<lceil>1 / x\<rceil>"
    let ?c = "bitlen (?k - 1)"
    from assms x1 have "1 < 1 / x" by simp
    then have k2: "2 \<le> ?k" by linarith
    then have km: "0 < ?k - 1" by simp
    then have c1: "1 \<le> ?c" by (auto simp: bitlen_alt_def)
    from bitlen_bounds [OF km] have "2 ^ nat (?c - 1) \<le> ?k - 1" ..
    then have "(2::real) ^ nat (?c - 1) \<le> of_int (?k - 1)"
      by (metis of_int_le_iff of_int_numeral of_int_power)
    moreover have "of_int (?k - 1) < 1 / x" by linarith
    ultimately have "(2::real) ^ nat (?c - 1) < 1 / x" by linarith
    with assms have "x < 1 / (2::real) ^ nat (?c - 1)"
      by (simp add: field_simps)
    moreover have "(2::real) powi (- ?c + 1) = 1 / 2 ^ nat (?c - 1)"
    proof -
      have "(2::real) powi (- ?c + 1) = 2 powi (- (?c - 1))" by simp
      also have "\<dots> = 1 / 2 powi (?c - 1)" by (rule power_int_minus_divide)
      also have "\<dots> = 1 / 2 ^ nat (?c - 1)" using c1 by (simp add: power_int_nonneg_exp)
      finally show ?thesis .
    qed
    ultimately show ?thesis using False by (simp add: ilog2_def)
  qed
qed

lemma pow2_less_imp:
  "(2::real) powi a < 2 powi b \<Longrightarrow> a < b"
  using power_int_increasing [of b a "2::real"] by (cases "a < b") auto

lemma ilog2_eqI:
  assumes "2 powi e \<le> x" "x < 2 powi (e + 1)"
  shows "ilog2 x = e"
proof -
  have pos: "0 < x" using assms(1) by (smt (verit) zero_less_power_int)
  from ilog2_bounds [OF pos] assms
  have "(2::real) powi (ilog2 x) < 2 powi (e + 1)" "(2::real) powi e < 2 powi (ilog2 x + 1)"
    by linarith+
  then have "ilog2 x < e + 1" "e < ilog2 x + 1"
    by (auto dest: pow2_less_imp)
  then show ?thesis by simp
qed

lemma ilog2_mono:
  assumes "0 < x" "x \<le> y"
  shows "ilog2 x \<le> ilog2 y"
proof -
  from assms have y: "0 < y" by simp
  from ilog2_bounds(1) [OF assms(1)] ilog2_bounds(2) [OF y] assms(2)
  have "(2::real) powi (ilog2 x) < 2 powi (ilog2 y + 1)" by linarith
  then have "ilog2 x < ilog2 y + 1" by (rule pow2_less_imp)
  then show ?thesis by simp
qed

lemma round_half_even_cases:
  "round_half_even x = \<lfloor>x\<rfloor> \<or> round_half_even x = \<lfloor>x\<rfloor> + 1"
  by (simp add: round_half_even_def)

lemma round_half_even_of_int [simp]: "round_half_even (of_int n) = n"
  by (simp add: round_half_even_def)

lemma round_half_even_mono:
  assumes "x \<le> y"
  shows "round_half_even x \<le> round_half_even y"
proof (cases "\<lfloor>x\<rfloor> = \<lfloor>y\<rfloor>")
  case True
  with assms have "x - of_int \<lfloor>x\<rfloor> \<le> y - of_int \<lfloor>y\<rfloor>" by simp
  with True show ?thesis by (auto simp: round_half_even_def)
next
  case False
  with assms have "\<lfloor>x\<rfloor> + 1 \<le> \<lfloor>y\<rfloor>"
    using floor_mono [OF assms] by linarith
  moreover have "round_half_even x \<le> \<lfloor>x\<rfloor> + 1"
    using round_half_even_cases [of x] by auto
  moreover have "\<lfloor>y\<rfloor> \<le> round_half_even y"
    using round_half_even_cases [of y] by auto
  ultimately show ?thesis by linarith
qed

lemma round_half_even_ge: "of_int n \<le> x \<Longrightarrow> n \<le> round_half_even x"
  using round_half_even_mono [of "of_int n" x] by simp

lemma round_half_even_le: "x \<le> of_int n \<Longrightarrow> round_half_even x \<le> n"
  using round_half_even_mono [of x "of_int n"] by simp

lemma round_half_even_eqI:
  "\<bar>x - of_int n\<bar> < 1 / 2 \<Longrightarrow> round_half_even x = n"
proof -
  assume a: "\<bar>x - of_int n\<bar> < 1 / 2"
  show ?thesis
  proof (cases "of_int n \<le> x")
    case True
    with a have "\<lfloor>x\<rfloor> = n" by linarith
    with a True show ?thesis by (simp add: round_half_even_def)
  next
    case False
    with a have f: "\<lfloor>x\<rfloor> = n - 1" by linarith
    with a False have "1 / 2 < x - of_int \<lfloor>x\<rfloor>" by simp
    with f show ?thesis by (simp add: round_half_even_def)
  qed
qed

lemma round_half_even_minus: "round_half_even (- x) = - round_half_even x"
proof (cases "x = of_int \<lfloor>x\<rfloor>")
  case True
  then have "round_half_even (- x) = round_half_even (of_int (- \<lfloor>x\<rfloor>))" by simp
  also have "\<dots> = - \<lfloor>x\<rfloor>" by (rule round_half_even_of_int)
  also have "\<dots> = - round_half_even (of_int \<lfloor>x\<rfloor>)" by simp
  finally show ?thesis using True by simp
next
  case False
  then have fl: "\<lfloor>- x\<rfloor> = - \<lfloor>x\<rfloor> - 1"
    by (metis add.inverse_inverse ceiling_def ceiling_altdef diff_minus_eq_add floor_of_int
        minus_diff_eq of_int_floor_cancel uminus_add_conv_diff)
  have d: "- x - of_int \<lfloor>- x\<rfloor> = 1 - (x - of_int \<lfloor>x\<rfloor>)"
    by (simp add: fl)
  show ?thesis
    unfolding round_half_even_def d unfolding fl
    by (auto simp: algebra_simps)
qed

lemma ulp_of_pos: "0 < ulp_of x"
  by (simp add: ulp_of_def zero_less_power_int)

lemma ulp_of_minus [simp]: "ulp_of (- x) = ulp_of x"
  by (simp add: ulp_of_def)

lemma round_real_minus: "round_real (- x) = - round_real x"
  by (simp add: round_real_def round_half_even_minus)

lemma round_real_nonneg: "0 \<le> x \<Longrightarrow> 0 \<le> round_real x"
proof -
  assume "0 \<le> x"
  then have "of_int 0 \<le> x / ulp_of x" using ulp_of_pos [of x] by simp
  then have "0 \<le> round_half_even (x / ulp_of x)" by (rule round_half_even_ge)
  then show ?thesis using ulp_of_pos [of x] by (simp add: round_real_def)
qed

lemma pow2_split: "(2::real) powi (e + 1) = 2 powi 53 * 2 powi (e - 52)"
proof -
  have "e + 1 = 53 + (e - 52)" by simp
  then have "(2::real) powi (e + 1) = 2 powi (53 + (e - 52))" by (rule arg_cong)
  also have "\<dots> = 2 powi 53 * 2 powi (e - 52)" by (rule power_int_add) simp
  finally show ?thesis .
qed

lemma pow2_split': "(2::real) powi e = 2 powi 52 * 2 powi (e - 52)"
proof -
  have "e = 52 + (e - 52)" by simp
  then have "(2::real) powi e = 2 powi (52 + (e - 52))" by (rule arg_cong)
  also have "\<dots> = 2 powi 52 * 2 powi (e - 52)" by (rule power_int_add) simp
  finally show ?thesis .
qed

lemma round_real_upper:
  assumes "0 < x"
  shows "round_real x \<le> 2 powi (max (ilog2 x) (- 1022) + 1)"
proof -
  let ?e = "max (ilog2 x) (- 1022)"
  let ?u = "(2::real) powi (?e - 52)"
  have u: "ulp_of x = ?u" using assms by (simp add: ulp_of_def)
  have upos: "0 < ?u" by (simp add: zero_less_power_int)
  have "x < 2 powi (ilog2 x + 1)" using assms by (rule ilog2_bounds)
  also have "\<dots> \<le> 2 powi (?e + 1)" by (rule power_int_increasing) simp_all
  finally have "x < 2 powi 53 * ?u" by (simp only: pow2_split)
  then have "x / ?u < 2 powi 53" using upos by (simp add: field_simps)
  then have "x / ?u \<le> of_int (2 ^ 53)" by simp
  then have "round_half_even (x / ?u) \<le> 2 ^ 53" by (rule round_half_even_le)
  then have "of_int (round_half_even (x / ?u)) \<le> (2::real) powi 53"
    by (metis of_int_le_iff of_int_numeral of_int_power power_int_numeral)
  then have "of_int (round_half_even (x / ?u)) * ?u \<le> 2 powi 53 * ?u"
    using upos by (simp add: mult_right_mono)
  then show ?thesis using assms by (simp add: round_real_def u pow2_split)
qed

lemma round_real_lower:
  assumes "0 < x" "- 1022 \<le> ilog2 x"
  shows "2 powi (ilog2 x) \<le> round_real x"
proof -
  let ?e = "ilog2 x"
  let ?u = "(2::real) powi (?e - 52)"
  have u: "ulp_of x = ?u" using assms by (simp add: ulp_of_def max_def)
  have upos: "0 < ?u" by (simp add: zero_less_power_int)
  have "2 powi ?e \<le> x" using assms(1) by (rule ilog2_bounds)
  then have "2 powi 52 * ?u \<le> x" by (subst (asm) pow2_split')
  then have "2 powi 52 \<le> x / ?u" using upos by (simp add: field_simps)
  then have "of_int (2 ^ 52) \<le> x / ?u" by simp
  then have "2 ^ 52 \<le> round_half_even (x / ?u)" by (rule round_half_even_ge)
  then have "(2::real) powi 52 \<le> of_int (round_half_even (x / ?u))"
    by (metis of_int_le_iff of_int_numeral of_int_power power_int_numeral)
  then have "2 powi 52 * ?u \<le> of_int (round_half_even (x / ?u)) * ?u"
    using upos by (simp add: mult_right_mono)
  then have "2 powi ?e \<le> of_int (round_half_even (x / ?u)) * ?u"
    by (subst pow2_split')
  then show ?thesis using assms by (simp add: round_real_def u)
qed

lemma round_real_mono_pos:
  assumes "0 < x" "x \<le> y"
  shows "round_real x \<le> round_real y"
proof -
  from assms have y: "0 < y" by simp
  let ?ex = "max (ilog2 x) (- 1022)"
  let ?ey = "max (ilog2 y) (- 1022)"
  have le: "?ex \<le> ?ey" using ilog2_mono [OF assms] by simp
  show ?thesis
  proof (cases "?ex = ?ey")
    case True
    then have u: "ulp_of x = ulp_of y" using assms y by (simp add: ulp_of_def)
    have "x / ulp_of y \<le> y / ulp_of y"
      using assms(2) ulp_of_pos [of y] by (simp add: divide_right_mono)
    then have "round_half_even (x / ulp_of y) \<le> round_half_even (y / ulp_of y)"
      by (rule round_half_even_mono)
    then have "of_int (round_half_even (x / ulp_of y)) * ulp_of y
        \<le> of_int (round_half_even (y / ulp_of y)) * ulp_of y"
      using ulp_of_pos [of y] by (simp add: mult_right_mono)
    then show ?thesis using assms y by (simp add: round_real_def u)
  next
    case False
    with le have lt: "?ex + 1 \<le> ?ey" by simp
    then have ey: "?ey = ilog2 y" "- 1022 \<le> ilog2 y" by (auto simp: max_def split: if_splits)
    have "round_real x \<le> 2 powi (?ex + 1)" using assms(1) by (rule round_real_upper)
    also have "\<dots> \<le> 2 powi ?ey" using lt by (intro power_int_increasing) simp_all
    also have "\<dots> = 2 powi (ilog2 y)" by (simp only: ey(1))
    also have "\<dots> \<le> round_real y" using y ey(2) by (rule round_real_lower)
    finally show ?thesis .
  qed
qed

lemma round_real_mono:
  assumes "x \<le> y"
  shows "round_real x \<le> round_real y"
proof -
  consider "0 < x" | "x \<le> 0" "0 \<le> y" | "y < 0" by linarith
  then show ?thesis
  proof cases
    case 1
    then show ?thesis using assms by (rule round_real_mono_pos)
  next
    case 2
    have "round_real x = - round_real (- x)" by (simp add: round_real_minus)
    also have "\<dots> \<le> 0" using round_real_nonneg [of "- x"] 2 by simp
    also have "\<dots> \<le> round_real y" using 2 by (simp add: round_real_nonneg)
    finally show ?thesis .
  next
    case 3
    then have "0 < - y" "- y \<le> - x" using assms by simp_all
    then have "round_real (- y) \<le> round_real (- x)" by (rule round_real_mono_pos)
    then show ?thesis by (simp add: round_real_minus)
  qed
qed

lemma round_real_0 [simp]: "round_real 0 = 0"
  by (simp add: round_real_def)

text \<open>Evaluating a rounding once the exponent and the rounded quotient are known.\<close>

lemma round_real_eval:
  assumes "2 powi e \<le> \<bar>x\<bar>" "\<bar>x\<bar> < 2 powi (e + 1)" "- 1022 \<le> e"
    and "\<bar>x / 2 powi (e - 52) - of_int n\<bar> < 1 / 2"
  shows "round_real x = of_int n * 2 powi (e - 52)"
proof -
  have "ilog2 \<bar>x\<bar> = e" using assms(1,2) by (rule ilog2_eqI)
  then have u: "ulp_of x = 2 powi (e - 52)" using assms(3) by (simp add: ulp_of_def max_def)
  have "x \<noteq> 0" using assms(1) by (smt (verit) zero_less_power_int abs_zero)
  moreover have "round_half_even (x / 2 powi (e - 52)) = n"
    using assms(4) by (rule round_half_even_eqI)
  ultimately show ?thesis by (simp add: round_real_def u)
qed

lemma round_double_Fin:
  "\<bar>round_real x\<bar> < 2 powi 1024 \<Longrightarrow> round_double x = Fin (round_real x)"
  by (auto simp: round_double_def)

lemma round_double_cases:
  obtains "round_double x = PInf" | "round_double x = NInf"
  | "round_double x = Fin (round_real x)" "\<bar>round_real x\<bar> < 2 powi 1024"
proof (cases "2 powi 1024 \<le> round_real x")
  case True
  then have "round_double x = PInf" by (simp add: round_double_def)
  then show ?thesis by (rule that(1))
next
  case False
  note hi = this
  show ?thesis
  proof (cases "round_real x \<le> - (2 powi 1024)")
    case True
    with hi have "round_double x = NInf" by (simp add: round_double_def)
    then show ?thesis by (rule that(2))
  next
    case False
    with hi have "round_double x = Fin (round_real x)" "\<bar>round_real x\<bar> < 2 powi 1024"
      by (simp_all add: round_double_def)
    then show ?thesis by (rule that(3))
  qed
qed

lemma round_real_of_int:
  assumes "\<bar>n\<bar> < 2 ^ 53"
  shows "round_real (of_int n) = of_int n"
proof (cases "n = 0")
  case True
  then show ?thesis by simp
next
  case False
  let ?x = "real_of_int n"
  let ?e = "ilog2 \<bar>?x\<bar>"
  from False have pos: "0 < \<bar>?x\<bar>" by simp
  from False have "1 \<le> \<bar>n\<bar>" by simp
  then have "real_of_int 1 \<le> real_of_int \<bar>n\<bar>" by (rule iffD2 [OF of_int_le_iff])
  then have one: "1 \<le> \<bar>?x\<bar>" by simp
  have "(2::real) powi 0 \<le> \<bar>?x\<bar>" using one by simp
  also have "\<dots> < 2 powi (?e + 1)" using pos by (rule ilog2_bounds)
  finally have "0 < ?e + 1" by (rule pow2_less_imp)
  then have e0: "0 \<le> ?e" by simp
  from assms have "real_of_int \<bar>n\<bar> < real_of_int (2 ^ 53)"
    by (rule iffD2 [OF of_int_less_iff])
  then have "\<bar>?x\<bar> < 2 powi 53" by simp
  with ilog2_bounds(1) [OF pos] have "(2::real) powi ?e < 2 powi 53" by linarith
  then have e52: "?e \<le> 52" using pow2_less_imp [of ?e 53] by simp
  have u: "ulp_of ?x = 2 powi (?e - 52)" using e0 by (simp add: ulp_of_def max_def)
  have "(2::real) powi (?e - 52) = 2 powi (- (52 - ?e))" by simp
  also have "\<dots> = 1 / 2 powi (52 - ?e)" by (rule power_int_minus_divide)
  also have "\<dots> = 1 / 2 ^ nat (52 - ?e)" using e52 by (simp add: power_int_nonneg_exp)
  finally have u': "ulp_of ?x = 1 / 2 ^ nat (52 - ?e)" by (simp only: u)
  have "?x / ulp_of ?x = of_int (n * 2 ^ nat (52 - ?e))"
    by (simp add: u')
  then have "round_half_even (?x / ulp_of ?x) = n * 2 ^ nat (52 - ?e)"
    by (simp only: round_half_even_of_int)
  then have "round_real ?x = of_int (n * 2 ^ nat (52 - ?e)) * ulp_of ?x"
    using False by (simp add: round_real_def)
  also have "\<dots> = ?x" by (simp add: u')
  finally show ?thesis .
qed

lemma float_of_int_small:
  assumes "\<bar>n\<bar> < 2 ^ 53"
  shows "float_of_int n = Inr (Fin (of_int n))"
proof -
  have r: "round_real (of_int n) = of_int n" using assms by (rule round_real_of_int)
  from assms have "real_of_int \<bar>n\<bar> < real_of_int (2 ^ 53)"
    by (rule iffD2 [OF of_int_less_iff])
  then have "\<bar>real_of_int n\<bar> < 2 ^ 53" by simp
  also have "\<dots> < 2 powi 1024" by simp
  finally have "\<bar>round_real (of_int n)\<bar> < 2 powi 1024" by (simp only: r)
  then have "round_double (of_int n) = Fin (of_int n)"
    using r by (simp add: round_double_Fin)
  then show ?thesis by (simp add: float_of_int_def)
qed

section \<open>Properties of the percentage\<close>

lemma compute_percent_finite:
  assumes "0 < t" "\<bar>round_real (a / t)\<bar> < 2 powi 1024"
    and "\<bar>round_real (round_real (a / t) * 100)\<bar> < 2 powi 1024"
  shows "compute_percent (Fin a) (Fin t)
         = Inr (Some \<lfloor>round_real (round_real (a / t) * 100)\<rfloor>)"
  using assms by (simp add: compute_percent_def float_div_def round_double_Fin)

lemma compute_percent_None:
  "(compute_percent used tot = Inr None) = float_le tot (Fin 0)"
  by (auto simp: compute_percent_def split: sum.splits)

lemma compute_percent_Some:
  assumes "compute_percent used tot = Inr (Some p)"
  shows "\<exists>a. used = Fin a
           \<and> ((\<exists>t. tot = Fin t \<and> 0 < t \<and> \<bar>round_real (a / t)\<bar> < 2 powi 1024
                  \<and> \<bar>round_real (round_real (a / t) * 100)\<bar> < 2 powi 1024
                  \<and> p = \<lfloor>round_real (round_real (a / t) * 100)\<rfloor>)
               \<or> (tot = PInf \<and> p = 0))"
proof (cases tot)
  case (Fin t)
  with assms have t: "0 < t"
    by (auto simp: compute_percent_def split: if_splits)
  show ?thesis
  proof (cases used)
    case (Fin a)
    note u = this
    show ?thesis
    proof (cases "a / t" rule: round_double_cases)
      case 1
      with assms u \<open>tot = Fin t\<close> t show ?thesis
        by (simp add: compute_percent_def float_div_def)
    next
      case 2
      with assms u \<open>tot = Fin t\<close> t show ?thesis
        by (simp add: compute_percent_def float_div_def)
    next
      case 3
      note q = this
      show ?thesis
      proof (cases "round_real (a / t) * 100" rule: round_double_cases)
        case 1
        with assms u \<open>tot = Fin t\<close> t q show ?thesis
          by (simp add: compute_percent_def float_div_def)
      next
        case 2
        with assms u \<open>tot = Fin t\<close> t q show ?thesis
          by (simp add: compute_percent_def float_div_def)
      next
        case 3
        with assms u \<open>tot = Fin t\<close> t q show ?thesis
          by (simp add: compute_percent_def float_div_def)
      qed
    qed
  next
    case PInf
    with assms \<open>tot = Fin t\<close> t show ?thesis
      by (simp add: compute_percent_def float_div_def)
  next
    case NInf
    with assms \<open>tot = Fin t\<close> t show ?thesis
      by (simp add: compute_percent_def float_div_def)
  next
    case NaN
    with assms \<open>tot = Fin t\<close> t show ?thesis
      by (simp add: compute_percent_def float_div_def)
  qed
next
  case PInf
  with assms show ?thesis
    by (cases used) (simp_all add: compute_percent_def float_div_def round_double_def)
next
  case NInf
  with assms show ?thesis by (simp add: compute_percent_def)
next
  case NaN
  with assms show ?thesis
    by (cases used) (simp_all add: compute_percent_def float_div_def)
qed

lemma compute_percent_mono:
  assumes "compute_percent used tot = Inr (Some p)"
    and "compute_percent used' tot = Inr (Some q)"
    and "float_le used used'"
  shows "p \<le> q"
proof -
  from compute_percent_Some [OF assms(1)] obtain a where a: "used = Fin a"
    and pa: "(\<exists>t. tot = Fin t \<and> 0 < t \<and> p = \<lfloor>round_real (round_real (a / t) * 100)\<rfloor>)
               \<or> (tot = PInf \<and> p = 0)"
    by blast
  from compute_percent_Some [OF assms(2)] obtain b where b: "used' = Fin b"
    and qb: "(\<exists>t. tot = Fin t \<and> 0 < t \<and> q = \<lfloor>round_real (round_real (b / t) * 100)\<rfloor>)
               \<or> (tot = PInf \<and> q = 0)"
    by blast
  from assms(3) a b have ab: "a \<le> b" by simp
  show ?thesis
  proof (cases tot)
    case (Fin t)
    with pa qb have t: "0 < t"
      and p: "p = \<lfloor>round_real (round_real (a / t) * 100)\<rfloor>"
      and q: "q = \<lfloor>round_real (round_real (b / t) * 100)\<rfloor>"
      by auto
    from ab t have "a / t \<le> b / t" by (simp add: divide_right_mono)
    then have "round_real (a / t) \<le> round_real (b / t)" by (rule round_real_mono)
    then have "round_real (a / t) * 100 \<le> round_real (b / t) * 100" by simp
    then have "round_real (round_real (a / t) * 100) \<le> round_real (round_real (b / t) * 100)"
      by (rule round_real_mono)
    then show ?thesis unfolding p q by (rule floor_mono)
  next
    case PInf
    with pa qb show ?thesis by auto
  next
    case NInf
    with pa show ?thesis by auto
  next
    case NaN
    with pa show ?thesis by auto
  qed
qed

text \<open>
  Evaluating \<open>compute_percent\<close> on finite floats once the exponents and the rounded
  quotients of its two roundings are known.
\<close>

lemma compute_percent_eval:
  assumes "0 < t"
    and "2 powi e1 \<le> \<bar>a / t\<bar>" "\<bar>a / t\<bar> < 2 powi (e1 + 1)" "- 1022 \<le> e1"
    and "\<bar>a / t / 2 powi (e1 - 52) - of_int n1\<bar> < 1 / 2"
    and "\<bar>real_of_int n1 * 2 powi (e1 - 52)\<bar> < 2 powi 1024"
    and "2 powi e2 \<le> \<bar>real_of_int n1 * 2 powi (e1 - 52) * 100\<bar>"
    and "\<bar>real_of_int n1 * 2 powi (e1 - 52) * 100\<bar> < 2 powi (e2 + 1)" "- 1022 \<le> e2"
    and "\<bar>real_of_int n1 * 2 powi (e1 - 52) * 100 / 2 powi (e2 - 52) - of_int n2\<bar> < 1 / 2"
    and "\<bar>real_of_int n2 * 2 powi (e2 - 52)\<bar> < 2 powi 1024"
  shows "round_real (a / t) = real_of_int n1 * 2 powi (e1 - 52)"
    and "round_real (round_real (a / t) * 100) = real_of_int n2 * 2 powi (e2 - 52)"
    and "compute_percent (Fin a) (Fin t) = Inr (Some \<lfloor>real_of_int n2 * 2 powi (e2 - 52)\<rfloor>)"
proof -
  show q: "round_real (a / t) = real_of_int n1 * 2 powi (e1 - 52)"
    using assms(2-5) by (rule round_real_eval)
  show m: "round_real (round_real (a / t) * 100) = real_of_int n2 * 2 powi (e2 - 52)"
    unfolding q using assms(7-10) by (rule round_real_eval)
  show "compute_percent (Fin a) (Fin t) = Inr (Some \<lfloor>real_of_int n2 * 2 powi (e2 - 52)\<rfloor>)"
    using compute_percent_finite [of t a] assms(1,6,11) q m by simp
qed

lemma percent_40_50:
  "compute_percent (Fin 40) (Fin 50) = Inr (Some 80)"
  "\<bar>round_real (40 / 50)\<bar> < 2 powi 1024"
  "\<bar>round_real (round_real (40 / 50) * 100)\<bar> < 2 powi 1024"
  "\<lfloor>round_real (round_real (40 / 50) * 100)\<rfloor> = 80"
  using compute_percent_eval [of 50 "-1" 40 7205759403792794 6 5629499534213120]
  by (simp_all add: power_int_minus_divide)

lemma percent_45_50:
  "compute_percent (Fin 45) (Fin 50) = Inr (Some 90)"
  using compute_percent_eval [of 50 "-1" 45 8106479329266893 6 6333186975989760]
  by (simp_all add: power_int_minus_divide)

lemma percent_29_100:
  "compute_percent (Fin 29) (Fin 100) = Inr (Some 28)"
  using compute_percent_eval [of 100 "-2" 29 5224175567749775 4 8162774324609023]
  by (simp_all add: power_int_minus_divide)

lemma percent_799_1000:
  "round_double (799 / 10) = Fin (2811231329897677 / 35184372088832)"
  "compute_percent (Fin (2811231329897677 / 35184372088832)) (Fin 100) = Inr (Some 79)"
proof -
  have "round_real (799 / 10) = of_int 5622462659795354 * 2 powi (6 - 52)"
    by (rule round_real_eval) (simp_all add: power_int_minus_divide)
  then have r: "round_real (799 / 10) = 2811231329897677 / 35184372088832"
    by (simp add: power_int_minus_divide)
  then show "round_double (799 / 10) = Fin (2811231329897677 / 35184372088832)"
    by (simp add: round_double_Fin)
  show "compute_percent (Fin (2811231329897677 / 35184372088832)) (Fin 100) = Inr (Some 79)"
    using compute_percent_eval
      [of 100 "-1" "2811231329897677 / 35184372088832" 7196752204538053 6 5622462659795354]
    by (simp_all add: power_int_minus_divide)
qed

text \<open>
  C4, as amended. \<open>compute_percent\<close> returns \<open>None\<close> exactly when \<open>total <= 0\<close>. For
  finite floats with \<open>total > 0\<close> it returns the floor of the product computed in double
  precision, the quotient \<open>used / total\<close> rounded to the nearest float and then its product
  with 100 rounded again, whenever these stay finite. Where it returns a percentage for
  \<open>used\<close> and for \<open>used'\<close>, with \<open>used <= used'\<close> and the same total, the first is at most
  the second; and the percentage is the rounded product truncated, not rounded.
\<close>

theorem compute_percent_floor:
  "(compute_percent used tot = Inr None) = float_le tot (Fin 0)
   \<and> (0 < t \<and> \<bar>round_real (a / t)\<bar> < 2 powi 1024
       \<and> \<bar>round_real (round_real (a / t) * 100)\<bar> < 2 powi 1024 \<longrightarrow>
         compute_percent (Fin a) (Fin t)
           = Inr (Some \<lfloor>round_real (round_real (a / t) * 100)\<rfloor>)
         \<and> float_div (Fin a) (Fin t) = Inr (Fin (round_real (a / t)))
         \<and> float_mul (Fin (round_real (a / t))) (Fin 100)
             = Fin (round_real (round_real (a / t) * 100)))
   \<and> (compute_percent used tot = Inr (Some p) \<and> compute_percent used' tot = Inr (Some q)
       \<and> float_le used used' \<longrightarrow> p \<le> q)
   \<and> (compute_percent used tot = Inr (Some p) \<longrightarrow>
         (\<exists>d m. float_div used tot = Inr d \<and> float_mul d (Fin 100) = Fin m
            \<and> of_int p \<le> m \<and> m < of_int p + 1))"
proof -
  have fin: "compute_percent (Fin a) (Fin t)
           = Inr (Some \<lfloor>round_real (round_real (a / t) * 100)\<rfloor>)
         \<and> float_div (Fin a) (Fin t) = Inr (Fin (round_real (a / t)))
         \<and> float_mul (Fin (round_real (a / t))) (Fin 100)
             = Fin (round_real (round_real (a / t) * 100))"
    if "0 < t" "\<bar>round_real (a / t)\<bar> < 2 powi 1024"
      "\<bar>round_real (round_real (a / t) * 100)\<bar> < 2 powi 1024"
    using that compute_percent_finite [of t a]
    by (simp add: float_div_def round_double_Fin)
  have trunc: "\<exists>d m. float_div used tot = Inr d \<and> float_mul d (Fin 100) = Fin m
            \<and> of_int p \<le> m \<and> m < of_int p + 1"
    if "compute_percent used tot = Inr (Some p)"
  proof -
    from that have nz: "\<not> float_le tot (Fin 0)"
      by (auto simp: compute_percent_def split: if_splits)
    with that obtain d where d: "float_div used tot = Inr d"
      by (cases "float_div used tot") (auto simp: compute_percent_def)
    with that nz obtain m where m: "float_mul d (Fin 100) = Fin m" and p: "p = \<lfloor>m\<rfloor>"
      by (cases "float_mul d (Fin 100)") (auto simp: compute_percent_def)
    have "of_int p \<le> m \<and> m < of_int p + 1" unfolding p by linarith
    with d m show ?thesis by blast
  qed
  from compute_percent_None fin compute_percent_mono trunc show ?thesis by blast
qed

text \<open>
  40 of 50 is 80 percent and 45 of 50 is 90 percent; the float nearest to 79.9, of 100,
  reports 79.
\<close>

theorem compute_percent_floor_witness:
  "(0::real) < 50 \<and> \<bar>round_real (40 / 50)\<bar> < 2 powi 1024
   \<and> \<bar>round_real (round_real (40 / 50) * 100)\<bar> < 2 powi 1024
   \<and> compute_percent (Fin 40) (Fin 50) = Inr (Some 80)
   \<and> compute_percent (Fin 45) (Fin 50) = Inr (Some 90)
   \<and> float_le (Fin 40) (Fin 45) \<and> (80::int) \<le> 90
   \<and> round_double (799 / 10) = Fin (2811231329897677 / 35184372088832)
   \<and> compute_percent (Fin (2811231329897677 / 35184372088832)) (Fin 100) = Inr (Some 79)
   \<and> compute_percent (Fin 40) (Fin 0) = Inr None
   \<and> compute_percent (Fin 40) (Fin (- 5)) = Inr None"
proof -
  have pos: "(0::real) < 50" by simp
  note h = percent_40_50(2,3)
  from compute_percent_floor [of "Fin 40" "Fin 50" 50 40 80 "Fin 45" 90] pos h
  have a: "compute_percent (Fin 40) (Fin 50)
      = Inr (Some \<lfloor>round_real (round_real (40 / 50) * 100)\<rfloor>)"
    by blast
  then have a': "compute_percent (Fin 40) (Fin 50) = Inr (Some 80)"
    by (simp only: percent_40_50(4))
  have le: "float_le (Fin 40) (Fin 45)" by simp
  from compute_percent_floor [of "Fin 40" "Fin 50" 50 40 80 "Fin 45" 90] a' percent_45_50 le
  have mono: "(80::int) \<le> 90" by blast
  from compute_percent_floor [of "Fin 40" "Fin 0"]
  have z: "compute_percent (Fin 40) (Fin 0) = Inr None" by simp
  from compute_percent_floor [of "Fin 40" "Fin (- 5)"]
  have n: "compute_percent (Fin 40) (Fin (- 5)) = Inr None" by simp
  from pos h a' percent_45_50 le mono percent_799_1000 z n show ?thesis by blast
qed

text \<open>
  The claim as first stated fails: 29 of 100 reports 28, where the floor of the exact
  ratio is 29; and on an infinite or NaN operand the function raises instead of
  returning.
\<close>

theorem compute_percent_rounding_counterexample:
  "compute_percent (Fin 29) (Fin 100) = Inr (Some 28)
   \<and> \<lfloor>(29::real) / 100 * 100\<rfloor> = 29
   \<and> compute_percent PInf (Fin 100) = Inl OverflowError
   \<and> compute_percent (Fin 29) NaN = Inl ValueError"
  using percent_29_100 by (simp add: compute_percent_def float_div_def)

section \<open>The well-known-key pass\<close>

lemma collect_items_kept: "collect_items xs = kept_entries xs"
  by (induction xs rule: dict_entries.induct)
    (simp_all add: collect_items_def kept_entries_def)

lemma pick_loop_first:
  "pick_loop d ks =
     (case filter (\<lambda>c. c \<noteq> []) (map (\<lambda>k. candidate (dict_get d k)) ks) of
        [] \<Rightarrow> None
      | c # cs \<Rightarrow> Some c)"
  by (induction ks) (auto simp: candidate_def collect_items_kept split: json.splits)

text \<open>
  C8. \<open>pick_vps_list\<close> tries the keys \<open>vs\<close>, \<open>vps\<close>, \<open>data\<close>, \<open>result\<close> in this order. The
  candidate of a key is, for a list, its entries that are dictionaries and pass the filter
  once normalised, the other entries being dropped; for a dictionary, its values under the
  same rule; and nothing for any other value. The first non-empty candidate is returned;
  the later keys and the deep scan are consulted only when every earlier candidate is
  empty. The response
  \<open>{"vs": {"101": {"hostname": "a", "vpsid": "101"}, "102": {"hostname": "b", "vpsid": "102"}}}\<close>
  yields exactly the two records, with identifiers 101 and 102; \<open>{"vs": [null, {"vpsid": "1"}]}\<close>
  yields the one record; and of the values \<open>5\<close>, \<open>{"id": 7, "name": "x"}\<close> and
  \<open>{"uid": 1, "name": "u"}\<close> under \<open>vs\<close> only the second is kept, with its \<open>vpsid\<close>.
\<close>

theorem pick_vps_list_well_known_keys:
  "(candidate (dict_get d ''vs'') \<noteq> [] \<longrightarrow>
      pick_vps_list repr (JDict d) = candidate (dict_get d ''vs''))
   \<and> (candidate (dict_get d ''vs'') = [] \<and> candidate (dict_get d ''vps'') \<noteq> [] \<longrightarrow>
      pick_vps_list repr (JDict d) = candidate (dict_get d ''vps''))
   \<and> (candidate (dict_get d ''vs'') = [] \<and> candidate (dict_get d ''vps'') = []
        \<and> candidate (dict_get d ''data'') \<noteq> [] \<longrightarrow>
      pick_vps_list repr (JDict d) = candidate (dict_get d ''data''))
   \<and> (candidate (dict_get d ''vs'') = [] \<and> candidate (dict_get d ''vps'') = []
        \<and> candidate (dict_get d ''data'') = [] \<and> candidate (dict_get d ''result'') \<noteq> [] \<longrightarrow>
      pick_vps_list repr (JDict d) = candidate (dict_get d ''result''))
   \<and> (candidate (dict_get d ''vs'') = [] \<and> candidate (dict_get d ''vps'') = []
        \<and> candidate (dict_get d ''data'') = [] \<and> candidate (dict_get d ''result'') = [] \<longrightarrow>
      pick_vps_list repr (JDict d) = deep_find_vps_list repr (JDict d) 5000)
   \<and> candidate (JList xs) =
        concat (map (\<lambda>x. case x of
                            JDict e \<Rightarrow>
                              if looks_like_vps (normalize_vps_item e)
                              then [normalize_vps_item e] else []
                          | _ \<Rightarrow> []) xs)
   \<and> candidate (JDict kvs) =
        concat (map (\<lambda>kv. case snd kv of
                            JDict e \<Rightarrow>
                              if looks_like_vps (normalize_vps_item e)
                              then [normalize_vps_item e] else []
                          | _ \<Rightarrow> []) kvs)
   \<and> candidate JNull = [] \<and> candidate (JBool b) = [] \<and> candidate (JInt n) = []
   \<and> candidate (JFloat f) = [] \<and> candidate (JStr t) = []
   \<and> pick_vps_list repr
        (JDict [(''vs'', JDict
           [(''101'', JDict [(''hostname'', JStr ''a''), (''vpsid'', JStr ''101'')]),
            (''102'', JDict [(''hostname'', JStr ''b''), (''vpsid'', JStr ''102'')])])])
       = [[(''hostname'', JStr ''a''), (''vpsid'', JStr ''101'')],
          [(''hostname'', JStr ''b''), (''vpsid'', JStr ''102'')]]
   \<and> map (vid_of repr)
        [[(''hostname'', JStr ''a''), (''vpsid'', JStr ''101'')],
         [(''hostname'', JStr ''b''), (''vpsid'', JStr ''102'')]] = [''101'', ''102'']
   \<and> pick_vps_list repr (JDict [(''vs'', JList [JNull, JDict [(''vpsid'', JStr ''1'')]])])
       = [[(''vpsid'', JStr ''1'')]]
   \<and> pick_vps_list repr
        (JDict [(''vs'', JDict
           [(''a'', JInt 5),
            (''b'', JDict [(''id'', JInt 7), (''name'', JStr ''x'')]),
            (''c'', JDict [(''uid'', JInt 1), (''name'', JStr ''u'')])])])
       = [[(''id'', JInt 7), (''name'', JStr ''x''), (''vpsid'', JInt 7)]]"
proof -
  have loop: "pick_vps_list repr (JDict d) =
      (case pick_loop d [''vs'', ''vps'', ''data'', ''result''] of
         Some out \<Rightarrow> out | None \<Rightarrow> deep_find_vps_list repr (JDict d) 5000)"
    by (simp add: pick_vps_list_def)
  have keys: "pick_vps_list repr (JDict d) =
      (if candidate (dict_get d ''vs'') \<noteq> [] then candidate (dict_get d ''vs'')
       else if candidate (dict_get d ''vps'') \<noteq> [] then candidate (dict_get d ''vps'')
       else if candidate (dict_get d ''data'') \<noteq> [] then candidate (dict_get d ''data'')
       else if candidate (dict_get d ''result'') \<noteq> [] then candidate (dict_get d ''result'')
       else deep_find_vps_list repr (JDict d) 5000)"
    unfolding loop pick_loop_first by simp
  have cand: "candidate (JList xs) =
        concat (map (\<lambda>x. case x of
                            JDict e \<Rightarrow>
                              if looks_like_vps (normalize_vps_item e)
                              then [normalize_vps_item e] else []
                          | _ \<Rightarrow> []) xs)"
    "candidate (JDict kvs) =
        concat (map (\<lambda>kv. case snd kv of
                            JDict e \<Rightarrow>
                              if looks_like_vps (normalize_vps_item e)
                              then [normalize_vps_item e] else []
                          | _ \<Rightarrow> []) kvs)"
    "candidate JNull = [] \<and> candidate (JBool b) = [] \<and> candidate (JInt n) = []
      \<and> candidate (JFloat f) = [] \<and> candidate (JStr t) = []"
    by (simp_all add: candidate_def kept_entries_def comp_def)
  have scen: "pick_vps_list repr
        (JDict [(''vs'', JDict
           [(''101'', JDict [(''hostname'', JStr ''a''), (''vpsid'', JStr ''101'')]),
            (''102'', JDict [(''hostname'', JStr ''b''), (''vpsid'', JStr ''102'')])])])
       = [[(''hostname'', JStr ''a''), (''vpsid'', JStr ''101'')],
          [(''hostname'', JStr ''b''), (''vpsid'', JStr ''102'')]]"
    by (simp add: pick_vps_list_def dict_get_def collect_items_def looks_like_vps_def
        normalize_vps_item_def has_key_def)
  have ids: "map (vid_of repr)
        [[(''hostname'', JStr ''a''), (''vpsid'', JStr ''101'')],
         [(''hostname'', JStr ''b''), (''vpsid'', JStr ''102'')]] = [''101'', ''102'']"
    by (simp add: vid_of_def dict_get_def py_or_def)
  have mixed: "pick_vps_list repr (JDict [(''vs'', JList [JNull, JDict [(''vpsid'', JStr ''1'')]])])
       = [[(''vpsid'', JStr ''1'')]]"
    by (simp add: pick_vps_list_def dict_get_def collect_items_def looks_like_vps_def
        normalize_vps_item_def has_key_def)
  have mixed2: "pick_vps_list repr
        (JDict [(''vs'', JDict
           [(''a'', JInt 5),
            (''b'', JDict [(''id'', JInt 7), (''name'', JStr ''x'')]),
            (''c'', JDict [(''uid'', JInt 1), (''name'', JStr ''u'')])])])
       = [[(''id'', JInt 7), (''name'', JStr ''x''), (''vpsid'', JInt 7)]]"
    by (simp add: pick_vps_list_def dict_get_def collect_items_def looks_like_vps_def
        normalize_vps_item_def has_key_def)
  from keys cand scen ids mixed mixed2 show ?thesis by (simp only:) simp
qed

text \<open>
  With a VM under \<open>vs\<close> and another under \<open>vps\<close>, only the one under \<open>vs\<close> is returned;
  with nothing usable under \<open>vs\<close>, the one under \<open>vps\<close>.
\<close>

theorem pick_vps_list_well_known_keys_witness:
  "candidate (dict_get [(''vps'', JList [JDict [(''vpsid'', JStr ''2'')]]),
                        (''vs'', JList [JDict [(''vpsid'', JStr ''1'')]])] ''vs'') \<noteq> []
   \<and> pick_vps_list (\<lambda>v. []) (JDict [(''vps'', JList [JDict [(''vpsid'', JStr ''2'')]]),
                                 (''vs'', JList [JDict [(''vpsid'', JStr ''1'')]])])
       = [[(''vpsid'', JStr ''1'')]]
   \<and> candidate (dict_get [(''vps'', JList [JDict [(''vpsid'', JStr ''2'')]]),
                          (''vs'', JList [JInt 5])] ''vs'') = []
   \<and> pick_vps_list (\<lambda>v. []) (JDict [(''vps'', JList [JDict [(''vpsid'', JStr ''2'')]]),
                                 (''vs'', JList [JInt 5])])
       = [[(''vpsid'', JStr ''2'')]]"
proof -
  let ?d1 = "[(''vps'', JList [JDict [(''vpsid'', JStr ''2'')]]),
              (''vs'', JList [JDict [(''vpsid'', JStr ''1'')]])]"
  let ?d2 = "[(''vps'', JList [JDict [(''vpsid'', JStr ''2'')]]),
              (''vs'', JList [JInt 5])]"
  have c1: "candidate (dict_get ?d1 ''vs'') = [[(''vpsid'', JStr ''1'')]]"
    by (simp add: candidate_def kept_entries_def dict_get_def looks_like_vps_def
        normalize_vps_item_def has_key_def)
  have c2: "candidate (dict_get ?d2 ''vs'') = []"
    by (simp add: candidate_def kept_entries_def dict_get_def)
  have c3: "candidate (dict_get ?d2 ''vps'') = [[(''vpsid'', JStr ''2'')]]"
    by (simp add: candidate_def kept_entries_def dict_get_def looks_like_vps_def
        normalize_vps_item_def has_key_def)
  from pick_vps_list_well_known_keys [of ?d1 "\<lambda>v. []"] c1
  have r1: "pick_vps_list (\<lambda>v. []) (JDict ?d1) = [[(''vpsid'', JStr ''1'')]]" by simp
  from pick_vps_list_well_known_keys [of ?d2 "\<lambda>v. []"] c2 c3
  have r2: "pick_vps_list (\<lambda>v. []) (JDict ?d2) = [[(''vpsid'', JStr ''2'')]]" by simp
  from c1 c2 r1 r2 show ?thesis by simp
qed

section \<open>Deduplication after the scan\<close>

lemma dedupe_loop_distinct:
  "distinct (map fst uniq) \<Longrightarrow> distinct (map fst (dedupe_loop repr found uniq))"
  by (induction found arbitrary: uniq) (simp_all add: distinct_update)

lemma dedupe_loop_map_of:
  "map_of (dedupe_loop repr found uniq) k =
     (if k \<noteq> [] \<and> (\<exists>it\<in>set found. vid_of repr it = k)
      then Some (last (filter (\<lambda>x. vid_of repr x = k) found))
      else map_of uniq k)"
proof (induction found arbitrary: uniq)
  case Nil
  show ?case by simp
next
  case (Cons it rest)
  show ?case
  proof (cases "vid_of repr it = k")
    case True
    then show ?thesis
      by (auto simp: Cons.IH update_conv' filter_empty_conv)
  next
    case False
    then show ?thesis
      by (simp add: Cons.IH update_conv')
  qed
qed

lemma dedupe_loop_empty_iff:
  "(dedupe_loop repr found [] = []) = (\<forall>it\<in>set found. vid_of repr it = [])"
proof -
  have "(dedupe_loop repr found [] = []) = (map_of (dedupe_loop repr found []) = Map.empty)"
    by (simp add: map_of_eq_empty_iff)
  also have "\<dots> = (\<forall>k. map_of (dedupe_loop repr found []) k = None)"
    by (auto simp: fun_eq_iff)
  also have "\<dots> = (\<forall>it\<in>set found. vid_of repr it = [])"
    by (auto simp: dedupe_loop_map_of)
  finally show ?thesis .
qed

lemma dedupe_loop_entries:
  "((k, it) \<in> set (dedupe_loop repr found [])) =
     (k \<noteq> [] \<and> (\<exists>x\<in>set found. vid_of repr x = k)
      \<and> it = last (filter (\<lambda>x. vid_of repr x = k) found))"
proof -
  have d: "distinct (map fst (dedupe_loop repr found []))"
    by (rule dedupe_loop_distinct) simp
  have "((k, it) \<in> set (dedupe_loop repr found [])) =
          (map_of (dedupe_loop repr found []) k = Some it)"
    using d by (auto dest: map_of_SomeD)
  then show ?thesis
    by (auto simp: dedupe_loop_map_of)
qed

lemma last_filter_sat:
  "\<exists>x\<in>set xs. P x \<Longrightarrow> P (last (filter P xs)) \<and> last (filter P xs) \<in> set xs"
proof -
  assume "\<exists>x\<in>set xs. P x"
  then have ne: "filter P xs \<noteq> []" by (simp add: filter_empty_conv)
  then have "last (filter P xs) \<in> set (filter P xs)" by (rule last_in_set)
  then show ?thesis by simp
qed

lemma dedupe_loop_keys:
  "map (vid_of repr) (map snd (dedupe_loop repr found [])) = map fst (dedupe_loop repr found [])"
proof -
  have "vid_of repr it = k" if "(k, it) \<in> set (dedupe_loop repr found [])" for k it
    using that last_filter_sat [of found "\<lambda>x. vid_of repr x = k"]
    by (auto simp: dedupe_loop_entries)
  then show ?thesis by auto
qed

text \<open>
  C7. The scan's result is its accumulated list deduplicated by identifier, the text of
  the \<open>vpsid\<close> field: the result holds one record for each identifier, and that record is
  the last accumulated one with this identifier. When no accumulated record carries an
  identifier the accumulated list is returned as it is.
\<close>

theorem dedupe_by_vpsid_last_wins:
  "deep_find_vps_list repr obj limit = dedupe_by_vpsid repr (snd (walk limit obj (0, [])))
   \<and> ((\<forall>it\<in>set found. vid_of repr it = []) \<longrightarrow> dedupe_by_vpsid repr found = found)
   \<and> ((\<exists>it\<in>set found. vid_of repr it \<noteq> []) \<longrightarrow>
        distinct (map (vid_of repr) (dedupe_by_vpsid repr found))
        \<and> set (map (vid_of repr) (dedupe_by_vpsid repr found))
            = {k. k \<noteq> [] \<and> (\<exists>it\<in>set found. vid_of repr it = k)}
        \<and> (\<forall>it\<in>set (dedupe_by_vpsid repr found).
              it = last (filter (\<lambda>x. vid_of repr x = vid_of repr it) found)))"
proof -
  have skip: "dedupe_by_vpsid repr found = found" if "\<forall>it\<in>set found. vid_of repr it = []"
    using that by (simp add: dedupe_by_vpsid_def dedupe_loop_empty_iff)
  have some: "distinct (map (vid_of repr) (dedupe_by_vpsid repr found))
        \<and> set (map (vid_of repr) (dedupe_by_vpsid repr found))
            = {k. k \<noteq> [] \<and> (\<exists>it\<in>set found. vid_of repr it = k)}
        \<and> (\<forall>it\<in>set (dedupe_by_vpsid repr found).
              it = last (filter (\<lambda>x. vid_of repr x = vid_of repr it) found))"
    if ex: "\<exists>it\<in>set found. vid_of repr it \<noteq> []"
  proof -
    let ?u = "dedupe_loop repr found []"
    from ex have ne: "?u \<noteq> []" by (simp add: dedupe_loop_empty_iff)
    then have res: "dedupe_by_vpsid repr found = map snd ?u"
      by (simp add: dedupe_by_vpsid_def)
    have ids: "map (vid_of repr) (map snd ?u) = map fst ?u"
      by (rule dedupe_loop_keys)
    have d: "distinct (map fst ?u)"
      by (rule dedupe_loop_distinct) simp
    have keys: "set (map fst ?u) = {k. k \<noteq> [] \<and> (\<exists>it\<in>set found. vid_of repr it = k)}"
    proof (rule set_eqI)
      fix k
      have "(k \<in> set (map fst ?u)) = (\<exists>it. (k, it) \<in> set ?u)"
        by force
      then show "(k \<in> set (map fst ?u))
          = (k \<in> {k. k \<noteq> [] \<and> (\<exists>it\<in>set found. vid_of repr it = k)})"
        by (simp add: dedupe_loop_entries)
    qed
    have lastw: "it = last (filter (\<lambda>x. vid_of repr x = vid_of repr it) found)"
      if "it \<in> set (map snd ?u)" for it
    proof -
      from that obtain k where kin: "(k, it) \<in> set ?u" by auto
      then have a: "it = last (filter (\<lambda>x. vid_of repr x = k) found)"
        and b: "\<exists>x\<in>set found. vid_of repr x = k"
        by (simp_all add: dedupe_loop_entries)
      from last_filter_sat [of found "\<lambda>x. vid_of repr x = k"] b a
      have "vid_of repr it = k" by simp
      with a show ?thesis by simp
    qed
    show ?thesis
      unfolding res ids using d keys lastw by blast
  qed
  show ?thesis
    using skip some by (simp add: deep_find_vps_list_def)
qed

theorem dedupe_by_vpsid_last_wins_witness:
  "(\<exists>it\<in>set [[(''vpsid'', JInt 7), (''name'', JStr ''old'')],
               [(''vpsid'', JStr ''8'')],
               [(''vpsid'', JStr ''7''), (''name'', JStr ''new'')]]. vid_of (\<lambda>v. []) it \<noteq> [])
   \<and> dedupe_by_vpsid (\<lambda>v. [])
        [[(''vpsid'', JInt 7), (''name'', JStr ''old'')],
         [(''vpsid'', JStr ''8'')],
         [(''vpsid'', JStr ''7''), (''name'', JStr ''new'')]]
      = [[(''vpsid'', JStr ''7''), (''name'', JStr ''new'')], [(''vpsid'', JStr ''8'')]]
   \<and> distinct (map (vid_of (\<lambda>v. []))
        (dedupe_by_vpsid (\<lambda>v. [])
          [[(''vpsid'', JInt 7), (''name'', JStr ''old'')],
           [(''vpsid'', JStr ''8'')],
           [(''vpsid'', JStr ''7''), (''name'', JStr ''new'')]]))
   \<and> map (vid_of (\<lambda>v. [])) [[(''name'', JStr ''a'')], [(''name'', JStr ''b'')]] = [[], []]
   \<and> dedupe_by_vpsid (\<lambda>v. []) [[(''name'', JStr ''a'')], [(''name'', JStr ''b'')]]
      = [[(''name'', JStr ''a'')], [(''name'', JStr ''b'')]]"
proof -
  let ?f = "[[(''vpsid'', JInt 7), (''name'', JStr ''old'')],
             [(''vpsid'', JStr ''8'')],
             [(''vpsid'', JStr ''7''), (''name'', JStr ''new'')]]"
  let ?g = "[[(''name'', JStr ''a'')], [(''name'', JStr ''b'')]]"
  have v: "map (vid_of (\<lambda>v. [])) ?f = [''7'', ''8'', ''7'']"
    by (simp add: vid_of_def dict_get_def py_or_def show_int_def digit_char_def)
  have ex: "\<exists>it\<in>set ?f. vid_of (\<lambda>v. []) it \<noteq> []"
    using v by simp
  have none: "\<forall>it\<in>set ?g. vid_of (\<lambda>v. []) it = []"
    by (simp add: vid_of_def dict_get_def py_or_def)
  have run: "dedupe_by_vpsid (\<lambda>v. []) ?f
      = [[(''vpsid'', JStr ''7''), (''name'', JStr ''new'')], [(''vpsid'', JStr ''8'')]]"
    using v by (simp add: dedupe_by_vpsid_def)
  from dedupe_by_vpsid_last_wins [of "\<lambda>v. []" JNull 0 ?f] ex
  have dist: "distinct (map (vid_of (\<lambda>v. [])) (dedupe_by_vpsid (\<lambda>v. []) ?f))" by blast
  from dedupe_by_vpsid_last_wins [of "\<lambda>v. []" JNull 0 ?g] none
  have same: "dedupe_by_vpsid (\<lambda>v. []) ?g = ?g" by blast
  have ids: "map (vid_of (\<lambda>v. [])) ?g = [[], []]"
    by (simp add: vid_of_def dict_get_def py_or_def)
  from ex ids run dist same show ?thesis by blast
qed

section \<open>The deep scan\<close>

lemma walk_found_inv:
  fixes Q :: "dict \<Rightarrow> bool"
  assumes coll: "\<And>xs it. it \<in> set (collect_items xs) \<Longrightarrow> Q it"
  shows "(\<forall>it\<in>set (snd st). Q it) \<Longrightarrow> (\<forall>it\<in>set (snd (walk limit x st)). Q it)"
    and "(\<forall>it\<in>set (snd st). Q it) \<Longrightarrow> (\<forall>it\<in>set (snd (walk_each limit xs st)). Q it)"
    and "(\<forall>it\<in>set (snd st). Q it) \<Longrightarrow> (\<forall>it\<in>set (snd (walk_values limit d st)). Q it)"
proof (induction limit x st and limit xs st and limit d st
    rule: walk_walk_each_walk_values.induct)
  case (1 limit xs visited found)
  then show ?case using coll by (auto split: if_splits)
next
  case (2 limit d visited found)
  then show ?case using coll by (auto split: if_splits)
qed (auto split: if_splits)

lemma walk_visited_bound:
  "fst (walk limit x st) \<le> max (fst st) (limit + 1)"
  "fst (walk_each limit xs st) \<le> max (fst st) (limit + 1)"
  "fst (walk_values limit d st) \<le> max (fst st) (limit + 1)"
  by (induction limit x st and limit xs st and limit d st
      rule: walk_walk_each_walk_values.induct)
    (auto split: if_splits simp: max_def)

lemma walk_each_nulls:
  "length found \<le> 500 \<Longrightarrow>
   walk_each limit (replicate n JNull) (visited, found)
     = (if visited > limit then visited else min (visited + n) (limit + 1), found)"
  by (induction n arbitrary: visited) auto

lemma walk_null_list:
  "0 < n \<Longrightarrow>
   walk limit (JList (replicate n JNull)) (0, []) = (min (1 + n) (limit + 1), [])"
  by (simp add: walk_each_nulls list_all_iff)

lemma length_ge_Suc0: "(Suc 0 \<le> length xs) = (xs \<noteq> [])"
  by (cases xs) simp_all

lemma dict_entries_all:
  "list_all is_dict xs \<Longrightarrow> map JDict (dict_entries xs) = xs"
  by (induction xs rule: dict_entries.induct) simp_all

text \<open>
  C5, as amended. A visited node that is a non-empty sequence of mappings, or a non-empty
  mapping of mappings, is taken as the list when at least one of its entries passes the
  filter: the scan then adds exactly the entries that pass, and does not descend into
  the node. When no entry passes, the scan descends into the node's children as it does
  for any other sequence or mapping.
\<close>

theorem walk_list_node:
  "visited \<le> limit \<and> length found \<le> 500 \<longrightarrow>
     (xs \<noteq> [] \<and> list_all is_dict xs \<and> collect_items xs \<noteq> [] \<longrightarrow>
        walk limit (JList xs) (visited, found) = (visited + 1, found @ collect_items xs))
   \<and> (d \<noteq> [] \<and> list_all is_dict (map snd d) \<and> collect_items (map snd d) \<noteq> [] \<longrightarrow>
        walk limit (JDict d) (visited, found)
          = (visited + 1, found @ collect_items (map snd d)))
   \<and> (collect_items xs = [] \<longrightarrow>
        walk limit (JList xs) (visited, found) = walk_each limit xs (visited + 1, found))
   \<and> (collect_items (map snd d) = [] \<longrightarrow>
        walk limit (JDict d) (visited, found) = walk_values limit d (visited + 1, found))
   \<and> (list_all is_dict xs \<longrightarrow>
        map JDict (dict_entries xs) = xs
        \<and> collect_items xs
            = filter looks_like_vps (map normalize_vps_item (dict_entries xs)))"
proof -
  have nodes:
    "visited \<le> limit \<and> length found \<le> 500 \<longrightarrow>
     (xs \<noteq> [] \<and> list_all is_dict xs \<and> collect_items xs \<noteq> [] \<longrightarrow>
        walk limit (JList xs) (visited, found) = (visited + 1, found @ collect_items xs))
   \<and> (d \<noteq> [] \<and> list_all is_dict (map snd d) \<and> collect_items (map snd d) \<noteq> [] \<longrightarrow>
        walk limit (JDict d) (visited, found)
          = (visited + 1, found @ collect_items (map snd d)))
   \<and> (collect_items xs = [] \<longrightarrow>
        walk limit (JList xs) (visited, found) = walk_each limit xs (visited + 1, found))
   \<and> (collect_items (map snd d) = [] \<longrightarrow>
        walk limit (JDict d) (visited, found) = walk_values limit d (visited + 1, found))"
    by (simp add: length_ge_Suc0)
  have entries:
    "list_all is_dict xs \<longrightarrow>
        map JDict (dict_entries xs) = xs
        \<and> collect_items xs
            = filter looks_like_vps (map normalize_vps_item (dict_entries xs))"
    by (simp add: dict_entries_all collect_items_def)
  from nodes entries show ?thesis by blast
qed

theorem walk_list_node_witness:
  "(0::nat) \<le> 5000 \<and> length ([] :: dict list) \<le> 500
   \<and> list_all is_dict [JDict [(''vpsid'', JStr ''1''), (''sub'', JList [JDict [(''vpsid'', JStr ''9'')]])],
                        JDict [(''uid'', JInt 3), (''name'', JStr ''u'')]]
   \<and> walk 5000
        (JList [JDict [(''vpsid'', JStr ''1''), (''sub'', JList [JDict [(''vpsid'', JStr ''9'')]])],
                JDict [(''uid'', JInt 3), (''name'', JStr ''u'')]]) (0, [])
      = (1, [[(''vpsid'', JStr ''1''), (''sub'', JList [JDict [(''vpsid'', JStr ''9'')]])]])"
proof -
  let ?xs = "[JDict [(''vpsid'', JStr ''1''), (''sub'', JList [JDict [(''vpsid'', JStr ''9'')]])],
              JDict [(''uid'', JInt 3), (''name'', JStr ''u'')]]"
  have c: "collect_items ?xs
      = [[(''vpsid'', JStr ''1''), (''sub'', JList [JDict [(''vpsid'', JStr ''9'')]])]]"
    by (simp add: collect_items_def looks_like_vps_def normalize_vps_item_def has_key_def)
  have a: "list_all is_dict ?xs" by simp
  have g: "(0::nat) \<le> 5000 \<and> length ([] :: dict list) \<le> 500" by simp
  have ne: "?xs \<noteq> []" by simp
  have cne: "collect_items ?xs \<noteq> []" using c by simp
  from walk_list_node [of 0 5000 "[]" ?xs "[]"] g ne a cne
  have "walk 5000 (JList ?xs) (0, []) = (0 + 1, [] @ collect_items ?xs)" by blast
  with a c show ?thesis by simp
qed

text \<open>
  The claim as first stated fails: the root below is a non-empty sequence of mappings
  none of which passes the filter, and the scan descends into it, visits three nodes and
  returns a record of a grandchild.
\<close>

theorem walk_descends_counterexample:
  "[JDict [(''wrap'', JList [JDict [(''vpsid'', JStr ''1'')]])]] \<noteq> []
   \<and> list_all is_dict [JDict [(''wrap'', JList [JDict [(''vpsid'', JStr ''1'')]])]]
   \<and> collect_items [JDict [(''wrap'', JList [JDict [(''vpsid'', JStr ''1'')]])]] = []
   \<and> walk 5000 (JList [JDict [(''wrap'', JList [JDict [(''vpsid'', JStr ''1'')]])]]) (0, [])
      = (3, [[(''vpsid'', JStr ''1'')]])
   \<and> walk 5000 (JList [JDict [(''wrap'', JList [JDict [(''vpsid'', JStr ''1'')]])]]) (0, [])
      \<noteq> (1, [] @ collect_items [JDict [(''wrap'', JList [JDict [(''vpsid'', JStr ''1'')]])]])
   \<and> deep_find_vps_list (\<lambda>v. [])
        (JList [JDict [(''wrap'', JList [JDict [(''vpsid'', JStr ''1'')]])]]) 5000
      = [[(''vpsid'', JStr ''1'')]]"
  by (simp add: collect_items_def looks_like_vps_def normalize_vps_item_def has_key_def
      deep_find_vps_list_def dedupe_by_vpsid_def vid_of_def dict_get_def py_or_def)

text \<open>
  C9. The scan is a total function (its termination is proved with its definition), and
  the counter never passes \<open>limit + 1\<close> (\<open>walk_visited_bound\<close>). The guard
  \<open>visited > limit\<close> is tested before the increment, so a document of 5001 nodes, a list
  of 5000 nulls, has all its 5001 nodes processed with the limit at 5000.
\<close>

theorem walk_visits_limit_plus_one:
  "walk 5000 (JList (replicate 5000 JNull)) (0, []) = (5001, [])"
proof -
  have "walk 5000 (JList (replicate 5000 JNull)) (0, []) = (min (1 + 5000) (5000 + 1), [])"
    by (rule walk_null_list) simp
  moreover have "min (1 + 5000) (5000 + 1) = (5001::nat)" by simp
  ultimately show ?thesis by (simp only:)
qed

section \<open>The records the normalizer returns\<close>

lemma normalize_vps_item_vpsid:
  "has_key (normalize_vps_item item) ''vps_id'' \<or> has_key (normalize_vps_item item) ''id''
   \<Longrightarrow> has_key (normalize_vps_item item) ''vpsid''"
  by (auto simp: normalize_vps_item_def has_key_def Let_def dom_update split: if_splits)

lemma collect_items_filtered:
  "it \<in> set (collect_items xs) \<Longrightarrow>
   looks_like_vps it \<and> (has_key it ''vps_id'' \<or> has_key it ''id'' \<longrightarrow> has_key it ''vpsid'')"
  using normalize_vps_item_vpsid by (auto simp: collect_items_def)

lemma pick_loop_filtered:
  "pick_loop d ks = Some out \<Longrightarrow> it \<in> set out \<Longrightarrow>
   looks_like_vps it \<and> (has_key it ''vps_id'' \<or> has_key it ''id'' \<longrightarrow> has_key it ''vpsid'')"
proof (induction ks)
  case Nil
  then show ?case by simp
next
  case (Cons k ks)
  then show ?case
    using collect_items_filtered
    by (cases "dict_get d k") (auto split: if_splits)
qed

lemma dedupe_by_vpsid_subset:
  "set (dedupe_by_vpsid repr found) \<subseteq> set found"
proof
  fix it
  assume "it \<in> set (dedupe_by_vpsid repr found)"
  then consider "it \<in> set found" | k where "(k, it) \<in> set (dedupe_loop repr found [])"
    by (auto simp: dedupe_by_vpsid_def Let_def split: if_splits)
  then show "it \<in> set found"
  proof cases
    case 1
    then show ?thesis .
  next
    case 2
    then show ?thesis
      using last_filter_sat [of found "\<lambda>x. vid_of repr x = k"]
      by (auto simp: dedupe_loop_entries)
  qed
qed

lemma deep_find_filtered:
  assumes "it \<in> set (deep_find_vps_list repr obj limit)"
  shows "looks_like_vps it
         \<and> (has_key it ''vps_id'' \<or> has_key it ''id'' \<longrightarrow> has_key it ''vpsid'')"
proof -
  let ?Q = "\<lambda>it. looks_like_vps it
         \<and> (has_key it ''vps_id'' \<or> has_key it ''id'' \<longrightarrow> has_key it ''vpsid'')"
  have "\<forall>it\<in>set (snd (walk limit obj (0, []))). ?Q it"
    by (rule walk_found_inv(1) [where Q = ?Q]) (simp_all add: collect_items_filtered)
  moreover from assms have "it \<in> set (snd (walk limit obj (0, [])))"
    using dedupe_by_vpsid_subset by (auto simp: deep_find_vps_list_def)
  ultimately show ?thesis by blast
qed

text \<open>
  C6, as amended. Every record \<open>pick_vps_list\<close> returns passes the VM-likeness filter: it
  has a \<open>vpsid\<close> key, or it has one of \<open>hostname\<close>, \<open>name\<close>, \<open>primary_ip\<close>, \<open>ip\<close> and no
  \<open>uid\<close>; and it has a \<open>vpsid\<close> key whenever it has a \<open>vps_id\<close> or an \<open>id\<close> key. The
  identifier may be missing, empty or not a string; the poll loop skips a record whose
  identifier text is empty, without touching the state.
\<close>

theorem pick_vps_list_records:
  "(\<forall>it\<in>set (pick_vps_list repr api_data).
      looks_like_vps it
      \<and> (has_key it ''vps_id'' \<or> has_key it ''id'' \<longrightarrow> has_key it ''vpsid''))
   \<and> (vid_of repr v = [] \<longrightarrow> poll_vps sink parse repr fetch s user_id profile_id v w = Inr w)"
proof -
  have "looks_like_vps it
      \<and> (has_key it ''vps_id'' \<or> has_key it ''id'' \<longrightarrow> has_key it ''vpsid'')"
    if "it \<in> set (pick_vps_list repr api_data)" for it
  proof (cases api_data)
    case (JDict d)
    show ?thesis
    proof (cases "pick_loop d [''vs'', ''vps'', ''data'', ''result'']")
      case None
      with JDict that have "it \<in> set (deep_find_vps_list repr api_data 5000)"
        by (simp add: pick_vps_list_def)
      then show ?thesis by (rule deep_find_filtered)
    next
      case (Some out)
      with JDict that have "it \<in> set out"
        by (simp add: pick_vps_list_def)
      with Some show ?thesis by (rule pick_loop_filtered)
    qed
  qed (use that in \<open>simp_all add: pick_vps_list_def\<close>)
  then show ?thesis by (simp add: poll_vps_def)
qed

theorem pick_vps_list_records_witness:
  "pick_vps_list (\<lambda>v. []) (JDict [(''data'', JList [JDict [(''id'', JInt 12), (''ip'', JStr ''10.0.0.1'')]])])
     = [[(''id'', JInt 12), (''ip'', JStr ''10.0.0.1''), (''vpsid'', JInt 12)]]
   \<and> has_key [(''id'', JInt 12), (''ip'', JStr ''10.0.0.1''), (''vpsid'', JInt 12)] ''id''
   \<and> has_key [(''id'', JInt 12), (''ip'', JStr ''10.0.0.1''), (''vpsid'', JInt 12)] ''vpsid''
   \<and> looks_like_vps [(''id'', JInt 12), (''ip'', JStr ''10.0.0.1''), (''vpsid'', JInt 12)]"
proof -
  let ?root = "JDict [(''data'', JList [JDict [(''id'', JInt 12), (''ip'', JStr ''10.0.0.1'')]])]"
  let ?it = "[(''id'', JInt 12), (''ip'', JStr ''10.0.0.1''), (''vpsid'', JInt 12)]"
  have run: "pick_vps_list (\<lambda>v. []) ?root = [?it]"
    by (simp add: pick_vps_list_def dict_get_def collect_items_def looks_like_vps_def
        normalize_vps_item_def has_key_def)
  have idk: "has_key ?it ''id''" by (simp add: has_key_def)
  from pick_vps_list_records [of "\<lambda>v. []" ?root] run
  have "looks_like_vps ?it \<and> (has_key ?it ''vps_id'' \<or> has_key ?it ''id'' \<longrightarrow> has_key ?it ''vpsid'')"
    by simp
  with idk run show ?thesis by simp
qed

text \<open>
  The claim as first stated fails: a record with a host name and no identifier is
  returned without a \<open>vpsid\<close> key, a numeric identifier is returned as a number, and an
  empty identifier is returned empty.
\<close>

theorem pick_vps_list_no_id_counterexample:
  "pick_vps_list (\<lambda>v. []) (JDict [(''vs'', JList [JDict [(''hostname'', JStr ''a'')]])])
     = [[(''hostname'', JStr ''a'')]]
   \<and> \<not> has_key [(''hostname'', JStr ''a'')] ''vpsid''
   \<and> dict_get [(''hostname'', JStr ''a'')] ''vpsid'' = JNull
   \<and> pick_vps_list (\<lambda>v. []) (JDict [(''vs'', JList [JDict [(''vpsid'', JInt 101)]])])
     = [[(''vpsid'', JInt 101)]]
   \<and> pick_vps_list (\<lambda>v. []) (JDict [(''vs'', JList [JDict [(''vpsid'', JStr '''')]])])
     = [[(''vpsid'', JStr '''')]]"
  by (simp add: pick_vps_list_def dict_get_def collect_items_def looks_like_vps_def
      normalize_vps_item_def has_key_def)

section \<open>The body of the poll loop\<close>

lemma send_all_append:
  "send_all sink u (ms @ ns) w = and_then (send_all sink u ms w) (send_all sink u ns)"
  by (induction ms arbitrary: w) (auto simp: and_then_def send_message_def)

lemma and_then_assoc:
  "and_then (and_then r f) g = and_then r (\<lambda>w. and_then (f w) g)"
  by (cases r) (simp_all add: and_then_def)

lemma and_then_send_nil:
  "and_then r (send_all sink u []) = r"
  by (cases r) (simp_all add: and_then_def)

lemma disk_stage:
  "(case dl of
      None \<Rightarrow> Inr w
    | Some l \<Rightarrow>
        if alerting dl \<and> dl \<noteq> last_disk_level prev
        then send_message sink u (DiskAlert l (vps_name vps_id info) (vps_ip info) dp) w
        else Inr w)
   = send_all sink u (disk_due vps_id info prev dl dp) w"
  by (cases dl) (simp_all add: disk_due_def and_then_send_nil)

lemma bw_stage:
  "(case bl of
      None \<Rightarrow> Inr w
    | Some l \<Rightarrow>
        if alerting bl \<and> bl \<noteq> last_bw_level prev
        then send_message sink u (BwAlert l (vps_name vps_id info) (vps_ip info) bp) w
        else Inr w)
   = send_all sink u (bw_due vps_id info prev bl bp) w"
  by (cases bl) (simp_all add: bw_due_def and_then_send_nil)

lemma suspend_stage:
  "(if suspend_alerts s then
      (case last_suspend prev of
         None \<Rightarrow> Inr w
       | Some before \<Rightarrow>
           and_then
             (if suspended_of parse info = 1 \<and> before = 0
              then send_message sink u (SuspendNotice (vps_name vps_id info) (vps_ip info)) w
              else Inr w)
             (\<lambda>w3.
               if suspended_of parse info = 0 \<and> before = 1
               then send_message sink u
                      (UnsuspendNotice (vps_name vps_id info) (vps_ip info)) w3
               else Inr w3))
    else Inr w)
   = send_all sink u (suspend_due parse s vps_id info prev) w"
proof (cases "last_suspend prev")
  case None
  then show ?thesis by (simp add: suspend_due_def)
next
  case (Some before)
  then show ?thesis
    by (simp add: suspend_due_def and_then_def send_message_def)
qed

text \<open>
  The messages due in a poll whose percentages are \<open>dp\<close> and \<open>bp\<close>, and the row the body
  writes at its end.
\<close>

lemma process_vps_send_all:
  assumes "disk_pct_of parse (pick_vps_details details) = Inr dp"
    and "bw_pct_of parse (pick_vps_details details) = Inr bp"
  shows "process_vps sink parse s u p vps_id details w =
     and_then
       (send_all sink u
          (disk_due vps_id (pick_vps_details details)
               (get_alert_state (alert_state w) u p vps_id)
               (classify_level dp (disk_warn s) (disk_critical s)) dp
           @ bw_due vps_id (pick_vps_details details)
               (get_alert_state (alert_state w) u p vps_id)
               (classify_level bp (bw_warn s) (bw_critical s)) bp
           @ suspend_due parse s vps_id (pick_vps_details details)
               (get_alert_state (alert_state w) u p vps_id)) w)
       (\<lambda>w4. case set_alert_state (alert_state w4) u p vps_id
                     (classify_level dp (disk_warn s) (disk_critical s))
                     (classify_level bp (bw_warn s) (bw_critical s))
                     (Some (suspended_of parse (pick_vps_details details))) of
                Inl e \<Rightarrow> Inl w4
              | Inr db \<Rightarrow> Inr (w4\<lparr>alert_state := db\<rparr>))"
  unfolding process_vps_def Let_def assms sum.case disk_stage bw_stage suspend_stage
    send_all_append and_then_assoc ..




lemma send_all_accepted:
  "\<forall>m. sink u m \<Longrightarrow> \<exists>w'. send_all sink u ms w = Inr w'"
  by (induction ms arbitrary: w) (auto simp: and_then_def send_message_def)



lemma process_vps_completes:
  assumes dp: "disk_pct_of parse (pick_vps_details details) = Inr dp"
    and bp: "bw_pct_of parse (pick_vps_details details) = Inr bp"
    and acc: "\<forall>m. sink u m"
    and fits: "fits_sql_integer (Some (suspended_of parse (pick_vps_details details)))"
  shows "\<exists>w'. process_vps sink parse s u p vps_id details w = Inr w'"
proof -
  let ?due = "disk_due vps_id (pick_vps_details details)
               (get_alert_state (alert_state w) u p vps_id)
               (classify_level dp (disk_warn s) (disk_critical s)) dp
           @ bw_due vps_id (pick_vps_details details)
               (get_alert_state (alert_state w) u p vps_id)
               (classify_level bp (bw_warn s) (bw_critical s)) bp
           @ suspend_due parse s vps_id (pick_vps_details details)
               (get_alert_state (alert_state w) u p vps_id)"
  from send_all_accepted [of sink u ?due w] acc
  obtain w4 where "send_all sink u ?due w = Inr w4"
    by blast
  then show ?thesis
    using fits by (simp add: process_vps_send_all [OF dp bp] and_then_def set_alert_state_def)
qed













lemma py_float_small:
  "\<bar>n\<bar> < 2 ^ 53 \<Longrightarrow> py_float parse (JInt n) = Inr (Fin (of_int n))"
  by (simp add: float_of_int_small)



lemma new_messages_same [simp]: "new_messages w w = []"
  by (simp add: new_messages_def)






lemma float_of_int_0: "float_of_int 0 = Inr (Fin 0)"
  using float_of_int_small [of 0] by simp









section \<open>Usage of zero\<close>

lemma py_or_falsy:
  "\<not> truthy a \<Longrightarrow> \<not> truthy b \<Longrightarrow> \<not> truthy c \<Longrightarrow> py_or (py_or (py_or a b) c) d = d"
  by (simp add: py_or_def)

lemma falsy_cases:
  "\<not> truthy v \<Longrightarrow>
   v = JNull \<or> v = JBool False \<or> v = JInt 0 \<or> v = JFloat (Fin 0) \<or> v = JStr []
     \<or> v = JList [] \<or> v = JDict []"
  by (cases v) simp_all

lemma float_of_int_50: "float_of_int 50 = Inr (Fin 50)"
  using float_of_int_small [of 50] by simp

lemma round_real_pow_1024: "round_real (2 ^ 1024) = 2 ^ 1024"
proof -
  have "round_real (2 ^ 1024) = of_int (2 ^ 52) * 2 powi (1024 - 52)"
    by (rule round_real_eval) (simp_all add: power_int_minus_divide)
  then show ?thesis by simp
qed

text \<open>\<open>float(2 ** 1024)\<close> raises.\<close>

lemma float_of_int_huge: "float_of_int (2 ^ 1024) = Inl OverflowError"
proof -
  have e: "real_of_int (2 ^ 1024) = 2 ^ 1024" by simp
  have "(2::real) powi 1024 \<le> 2 ^ 1024" by simp
  then have "round_double (2 ^ 1024) = PInf"
    unfolding round_double_def round_real_pow_1024 by (simp only: if_True)
  then show ?thesis unfolding float_of_int_def e by (simp only: pyfloat.case)
qed

lemma float_pair_falsy:
  assumes "\<not> truthy d"
  shows "usage_percent (float_pair parse d tot) = Inr None"
    and "d = JNull \<or> d = JStr [] \<or> d = JList [] \<or> d = JDict [] \<Longrightarrow>
           float_pair parse d tot = (None, None)"
    and "py_float parse tot = Inl e \<Longrightarrow> float_pair parse d tot = (None, None)"
    and "d = JInt 0 \<or> d = JFloat (Fin 0) \<or> d = JBool False \<Longrightarrow>
           py_float parse tot = Inr t \<Longrightarrow> float_pair parse d tot = (Some (Fin 0), Some t)"
proof -
  from falsy_cases [OF assms]
  show "usage_percent (float_pair parse d tot) = Inr None"
    by (auto simp: usage_percent_def float_pair_def float_truthy_def float_of_int_0
        split: sum.splits)
  show "float_pair parse d tot = (None, None)"
    if "d = JNull \<or> d = JStr [] \<or> d = JList [] \<or> d = JDict []"
    using that by (auto simp: float_pair_def)
  show "float_pair parse d tot = (None, None)" if "py_float parse tot = Inl e"
    using that by (simp add: float_pair_def split: sum.splits)
  show "float_pair parse d tot = (Some (Fin 0), Some t)"
    if "d = JInt 0 \<or> d = JFloat (Fin 0) \<or> d = JBool False" "py_float parse tot = Inr t"
    using that by (auto simp: float_pair_def float_of_int_0)
qed

text \<open>
  C10, as amended. When no alias of the used value holds a truthy value, the \<open>or\<close>
  chain yields the value under the last alias, \<open>used_hdd\<close> (for bandwidth \<open>used_bw\<close>),
  whatever the other three hold. If that one is absent, \<open>None\<close>, an empty string, list or
  dictionary, as with \<open>disk_used = 0\<close> alone, or if \<open>float\<close> rejects the value the chain
  of the total aliases yields, the extractor returns \<open>(None, None)\<close>, also when a positive
  total is present. If that one is itself a zero (or \<open>False\<close>) and \<open>float\<close> accepts the
  total, the extractor returns \<open>0.0\<close> and the total. In every case the alert engine
  computes no percentage and the level is \<open>None\<close>, not \<open>ok\<close>.
\<close>

theorem extract_usage_zero:
  "(\<not> truthy (dict_get info ''disk_used'') \<and> \<not> truthy (dict_get info ''used_disk'')
      \<and> \<not> truthy (dict_get info ''hdd_used'') \<and> \<not> truthy (dict_get info ''used_hdd'') \<longrightarrow>
      disk_pct_of parse info = Inr None \<and> disk_level_of parse s info = Inr None
      \<and> (dict_get info ''used_hdd'' = JNull \<or> dict_get info ''used_hdd'' = JStr []
           \<or> dict_get info ''used_hdd'' = JList [] \<or> dict_get info ''used_hdd'' = JDict [] \<longrightarrow>
            extract_disk_usage parse info = (None, None))
      \<and> (py_float parse
            (py_or (py_or (py_or (dict_get info ''disk'') (dict_get info ''vps_disk''))
               (dict_get info ''hdd'')) (dict_get info ''total_hdd'')) = Inl e \<longrightarrow>
            extract_disk_usage parse info = (None, None))
      \<and> ((dict_get info ''used_hdd'' = JInt 0 \<or> dict_get info ''used_hdd'' = JFloat (Fin 0)
            \<or> dict_get info ''used_hdd'' = JBool False)
          \<and> py_float parse
            (py_or (py_or (py_or (dict_get info ''disk'') (dict_get info ''vps_disk''))
               (dict_get info ''hdd'')) (dict_get info ''total_hdd'')) = Inr t \<longrightarrow>
            extract_disk_usage parse info = (Some (Fin 0), Some t)))
   \<and> (\<not> truthy (dict_get info ''bandwidth_used'') \<and> \<not> truthy (dict_get info ''bw_used'')
      \<and> \<not> truthy (dict_get info ''used_bandwidth'') \<and> \<not> truthy (dict_get info ''used_bw'') \<longrightarrow>
      bw_pct_of parse info = Inr None \<and> bw_level_of parse s info = Inr None
      \<and> (dict_get info ''used_bw'' = JNull \<or> dict_get info ''used_bw'' = JStr []
           \<or> dict_get info ''used_bw'' = JList [] \<or> dict_get info ''used_bw'' = JDict [] \<longrightarrow>
            extract_bw_usage parse info = (None, None))
      \<and> (py_float parse
            (py_or (py_or (py_or (dict_get info ''bandwidth'') (dict_get info ''bw''))
               (dict_get info ''total_bandwidth'')) (dict_get info ''total_bw'')) = Inl e \<longrightarrow>
            extract_bw_usage parse info = (None, None))
      \<and> ((dict_get info ''used_bw'' = JInt 0 \<or> dict_get info ''used_bw'' = JFloat (Fin 0)
            \<or> dict_get info ''used_bw'' = JBool False)
          \<and> py_float parse
            (py_or (py_or (py_or (dict_get info ''bandwidth'') (dict_get info ''bw''))
               (dict_get info ''total_bandwidth'')) (dict_get info ''total_bw'')) = Inr t \<longrightarrow>
            extract_bw_usage parse info = (Some (Fin 0), Some t)))"
proof -
  let ?dt = "py_or (py_or (py_or (dict_get info ''disk'') (dict_get info ''vps_disk''))
               (dict_get info ''hdd'')) (dict_get info ''total_hdd'')"
  let ?bt = "py_or (py_or (py_or (dict_get info ''bandwidth'') (dict_get info ''bw''))
               (dict_get info ''total_bandwidth'')) (dict_get info ''total_bw'')"
  have disk: "disk_pct_of parse info = Inr None \<and> disk_level_of parse s info = Inr None
      \<and> (dict_get info ''used_hdd'' = JNull \<or> dict_get info ''used_hdd'' = JStr []
           \<or> dict_get info ''used_hdd'' = JList [] \<or> dict_get info ''used_hdd'' = JDict [] \<longrightarrow>
            extract_disk_usage parse info = (None, None))
      \<and> (py_float parse ?dt = Inl e \<longrightarrow> extract_disk_usage parse info = (None, None))
      \<and> ((dict_get info ''used_hdd'' = JInt 0 \<or> dict_get info ''used_hdd'' = JFloat (Fin 0)
            \<or> dict_get info ''used_hdd'' = JBool False)
          \<and> py_float parse ?dt = Inr t \<longrightarrow>
            extract_disk_usage parse info = (Some (Fin 0), Some t))"
    if f: "\<not> truthy (dict_get info ''disk_used'')" "\<not> truthy (dict_get info ''used_disk'')"
      "\<not> truthy (dict_get info ''hdd_used'')" "\<not> truthy (dict_get info ''used_hdd'')"
  proof -
    have ex: "extract_disk_usage parse info = float_pair parse (dict_get info ''used_hdd'') ?dt"
      by (simp only: extract_disk_usage_def Let_def py_or_falsy [OF f(1,2,3)])
    have pct: "disk_pct_of parse info = Inr None"
      unfolding disk_pct_of_def ex using f(4) by (rule float_pair_falsy(1))
    then have lvl: "disk_level_of parse s info = Inr None"
      by (simp add: disk_level_of_def)
    from pct lvl float_pair_falsy(2-4) [OF f(4), of parse ?dt] show ?thesis
      unfolding ex by blast
  qed
  have bw: "bw_pct_of parse info = Inr None \<and> bw_level_of parse s info = Inr None
      \<and> (dict_get info ''used_bw'' = JNull \<or> dict_get info ''used_bw'' = JStr []
           \<or> dict_get info ''used_bw'' = JList [] \<or> dict_get info ''used_bw'' = JDict [] \<longrightarrow>
            extract_bw_usage parse info = (None, None))
      \<and> (py_float parse ?bt = Inl e \<longrightarrow> extract_bw_usage parse info = (None, None))
      \<and> ((dict_get info ''used_bw'' = JInt 0 \<or> dict_get info ''used_bw'' = JFloat (Fin 0)
            \<or> dict_get info ''used_bw'' = JBool False)
          \<and> py_float parse ?bt = Inr t \<longrightarrow>
            extract_bw_usage parse info = (Some (Fin 0), Some t))"
    if f: "\<not> truthy (dict_get info ''bandwidth_used'')" "\<not> truthy (dict_get info ''bw_used'')"
      "\<not> truthy (dict_get info ''used_bandwidth'')" "\<not> truthy (dict_get info ''used_bw'')"
  proof -
    have ex: "extract_bw_usage parse info = float_pair parse (dict_get info ''used_bw'') ?bt"
      by (simp only: extract_bw_usage_def Let_def py_or_falsy [OF f(1,2,3)])
    have pct: "bw_pct_of parse info = Inr None"
      unfolding bw_pct_of_def ex using f(4) by (rule float_pair_falsy(1))
    then have lvl: "bw_level_of parse s info = Inr None"
      by (simp add: bw_level_of_def)
    from pct lvl float_pair_falsy(2-4) [OF f(4), of parse ?bt] show ?thesis
      unfolding ex by blast
  qed
  from disk bw show ?thesis by blast
qed

text \<open>
  \<open>{"disk_used": 0, "disk": 50}\<close> gives \<open>(None, None)\<close> and level \<open>None\<close>;
  \<open>{"used_hdd": 0, "disk": 50}\<close> gives \<open>(0.0, 50.0)\<close> and level \<open>None\<close>;
  \<open>{"used_hdd": 0, "disk": "n/a"}\<close>, whose total \<open>float\<close> rejects, gives
  \<open>(None, None)\<close> again. For bandwidth, \<open>{"used_bw": 0.0, "bw": 50}\<close> gives
  \<open>(0.0, 50.0)\<close> and level \<open>None\<close>, and \<open>{"bw_used": 0, "bandwidth": 50}\<close> gives
  \<open>(None, None)\<close>. With the total \<open>2 ** 1024\<close>, which \<open>float\<close> rejects with
  \<open>OverflowError\<close>, \<open>{"used_hdd": 0, "disk": 2 ** 1024}\<close> gives \<open>(None, None)\<close>.
\<close>

theorem extract_usage_zero_witness:
  "map (\<lambda>k. truthy (dict_get [(''disk_used'', JInt 0), (''disk'', JInt 50)] k))
       [''disk_used'', ''used_disk'', ''hdd_used'', ''used_hdd'']
     = [False, False, False, False]
   \<and> extract_disk_usage (\<lambda>t. None) [(''disk_used'', JInt 0), (''disk'', JInt 50)] = (None, None)
   \<and> disk_level_of (\<lambda>t. None)
        \<lparr>alerts_enabled = True, disk_warn = 80, disk_critical = 100, bw_warn = 80,
         bw_critical = 100, suspend_alerts = True\<rparr>
        [(''disk_used'', JInt 0), (''disk'', JInt 50)] = Inr None
   \<and> map (\<lambda>k. truthy (dict_get [(''used_hdd'', JInt 0), (''disk'', JInt 50)] k))
       [''disk_used'', ''used_disk'', ''hdd_used'', ''used_hdd'']
     = [False, False, False, False]
   \<and> extract_disk_usage (\<lambda>t. None) [(''used_hdd'', JInt 0), (''disk'', JInt 50)]
       = (Some (Fin 0), Some (Fin 50))
   \<and> disk_level_of (\<lambda>t. None)
        \<lparr>alerts_enabled = True, disk_warn = 80, disk_critical = 100, bw_warn = 80,
         bw_critical = 100, suspend_alerts = True\<rparr>
        [(''used_hdd'', JInt 0), (''disk'', JInt 50)] = Inr None
   \<and> extract_disk_usage (\<lambda>t. None) [(''used_hdd'', JInt 0), (''disk'', JStr ''n/a'')]
       = (None, None)
   \<and> map (\<lambda>k. truthy (dict_get [(''used_bw'', JFloat (Fin 0)), (''bw'', JInt 50)] k))
       [''bandwidth_used'', ''bw_used'', ''used_bandwidth'', ''used_bw'']
     = [False, False, False, False]
   \<and> extract_bw_usage (\<lambda>t. None) [(''used_bw'', JFloat (Fin 0)), (''bw'', JInt 50)]
       = (Some (Fin 0), Some (Fin 50))
   \<and> bw_level_of (\<lambda>t. None)
        \<lparr>alerts_enabled = True, disk_warn = 80, disk_critical = 100, bw_warn = 80,
         bw_critical = 100, suspend_alerts = True\<rparr>
        [(''used_bw'', JFloat (Fin 0)), (''bw'', JInt 50)] = Inr None
   \<and> extract_bw_usage (\<lambda>t. None) [(''bw_used'', JInt 0), (''bandwidth'', JInt 50)]
       = (None, None)
   \<and> extract_disk_usage (\<lambda>t. None) [(''used_hdd'', JInt 0), (''disk'', JInt (2 ^ 1024))]
       = (None, None)"
proof -
  let ?g = "[(''used_hdd'', JInt 0), (''disk'', JInt (2 ^ 1024))]"
  let ?e = "[(''used_bw'', JFloat (Fin 0)), (''bw'', JInt 50)]"
  let ?f = "[(''bw_used'', JInt 0), (''bandwidth'', JInt 50)]"
  let ?s = "\<lparr>alerts_enabled = True, disk_warn = 80, disk_critical = 100, bw_warn = 80,
         bw_critical = 100, suspend_alerts = True\<rparr>"
  let ?a = "[(''disk_used'', JInt 0), (''disk'', JInt 50)]"
  let ?b = "[(''used_hdd'', JInt 0), (''disk'', JInt 50)]"
  let ?c = "[(''used_hdd'', JInt 0), (''disk'', JStr ''n/a'')]"
  have ha: "\<not> truthy (dict_get ?a ''disk_used'') \<and> \<not> truthy (dict_get ?a ''used_disk'')
      \<and> \<not> truthy (dict_get ?a ''hdd_used'') \<and> \<not> truthy (dict_get ?a ''used_hdd'')"
    by (simp add: dict_get_def)
  have hb: "\<not> truthy (dict_get ?b ''disk_used'') \<and> \<not> truthy (dict_get ?b ''used_disk'')
      \<and> \<not> truthy (dict_get ?b ''hdd_used'') \<and> \<not> truthy (dict_get ?b ''used_hdd'')"
    by (simp add: dict_get_def)
  have hc: "\<not> truthy (dict_get ?c ''disk_used'') \<and> \<not> truthy (dict_get ?c ''used_disk'')
      \<and> \<not> truthy (dict_get ?c ''hdd_used'') \<and> \<not> truthy (dict_get ?c ''used_hdd'')"
    by (simp add: dict_get_def)
  have la: "dict_get ?a ''used_hdd'' = JNull" by (simp add: dict_get_def)
  have lb: "dict_get ?b ''used_hdd'' = JInt 0
      \<and> py_float (\<lambda>t. None)
          (py_or (py_or (py_or (dict_get ?b ''disk'') (dict_get ?b ''vps_disk''))
             (dict_get ?b ''hdd'')) (dict_get ?b ''total_hdd'')) = Inr (Fin 50)"
    by (simp add: dict_get_def py_or_def float_of_int_50)
  have lc: "py_float (\<lambda>t. None)
          (py_or (py_or (py_or (dict_get ?c ''disk'') (dict_get ?c ''vps_disk''))
             (dict_get ?c ''hdd'')) (dict_get ?c ''total_hdd'')) = Inl ValueError"
    by (simp add: dict_get_def py_or_def)
  from extract_usage_zero [of ?a "\<lambda>t. None" ?s ValueError "Fin 50"] ha la
  have ra: "extract_disk_usage (\<lambda>t. None) ?a = (None, None)
      \<and> disk_level_of (\<lambda>t. None) ?s ?a = Inr None"
    by blast
  from extract_usage_zero [of ?b "\<lambda>t. None" ?s ValueError "Fin 50"] hb lb
  have rb: "extract_disk_usage (\<lambda>t. None) ?b = (Some (Fin 0), Some (Fin 50))
      \<and> disk_level_of (\<lambda>t. None) ?s ?b = Inr None"
    by blast
  from extract_usage_zero [of ?c "\<lambda>t. None" ?s ValueError "Fin 50"] hc lc
  have rc: "extract_disk_usage (\<lambda>t. None) ?c = (None, None)"
    by blast
  have ma: "map (\<lambda>k. truthy (dict_get ?a k)) [''disk_used'', ''used_disk'', ''hdd_used'', ''used_hdd'']
      = [False, False, False, False]"
    by (simp add: dict_get_def)
  have mb: "map (\<lambda>k. truthy (dict_get ?b k)) [''disk_used'', ''used_disk'', ''hdd_used'', ''used_hdd'']
      = [False, False, False, False]"
    by (simp add: dict_get_def)
  have he: "\<not> truthy (dict_get ?e ''bandwidth_used'') \<and> \<not> truthy (dict_get ?e ''bw_used'')
      \<and> \<not> truthy (dict_get ?e ''used_bandwidth'') \<and> \<not> truthy (dict_get ?e ''used_bw'')"
    by (simp add: dict_get_def)
  have hf: "\<not> truthy (dict_get ?f ''bandwidth_used'') \<and> \<not> truthy (dict_get ?f ''bw_used'')
      \<and> \<not> truthy (dict_get ?f ''used_bandwidth'') \<and> \<not> truthy (dict_get ?f ''used_bw'')"
    by (simp add: dict_get_def)
  have le: "dict_get ?e ''used_bw'' = JFloat (Fin 0)
      \<and> py_float (\<lambda>t. None)
          (py_or (py_or (py_or (dict_get ?e ''bandwidth'') (dict_get ?e ''bw''))
             (dict_get ?e ''total_bandwidth'')) (dict_get ?e ''total_bw'')) = Inr (Fin 50)"
    by (simp add: dict_get_def py_or_def float_of_int_50)
  have lf: "dict_get ?f ''used_bw'' = JNull" by (simp add: dict_get_def)
  from extract_usage_zero [of ?e "\<lambda>t. None" ?s ValueError "Fin 50"] he le
  have re: "extract_bw_usage (\<lambda>t. None) ?e = (Some (Fin 0), Some (Fin 50))
      \<and> bw_level_of (\<lambda>t. None) ?s ?e = Inr None"
    by blast
  from extract_usage_zero [of ?f "\<lambda>t. None" ?s ValueError "Fin 50"] hf lf
  have rf: "extract_bw_usage (\<lambda>t. None) ?f = (None, None)"
    by blast
  have me: "map (\<lambda>k. truthy (dict_get ?e k))
        [''bandwidth_used'', ''bw_used'', ''used_bandwidth'', ''used_bw'']
      = [False, False, False, False]"
    by (simp add: dict_get_def)
  have hg: "\<not> truthy (dict_get ?g ''disk_used'') \<and> \<not> truthy (dict_get ?g ''used_disk'')
      \<and> \<not> truthy (dict_get ?g ''hdd_used'') \<and> \<not> truthy (dict_get ?g ''used_hdd'')"
    by (simp add: dict_get_def del: power_numeral)
  have lg: "py_float (\<lambda>t. None)
          (py_or (py_or (py_or (dict_get ?g ''disk'') (dict_get ?g ''vps_disk''))
             (dict_get ?g ''hdd'')) (dict_get ?g ''total_hdd'')) = Inl OverflowError"
    by (simp add: dict_get_def py_or_def float_of_int_huge del: power_numeral)
  from extract_usage_zero [of ?g "\<lambda>t. None" ?s OverflowError "Fin 50"] hg lg
  have rg: "extract_disk_usage (\<lambda>t. None) ?g = (None, None)"
    by blast
  from ma mb ra rb rc me re rf rg show ?thesis by blast
qed

text \<open>
  The claim as first stated fails: with the zero under the last alias of the chain, and
  no other alias holding a truthy value, the extractor returns the pair and not
  \<open>(None, None)\<close>, for disk and for bandwidth.
\<close>

theorem extract_usage_zero_counterexample:
  "extract_disk_usage (\<lambda>t. None) [(''used_hdd'', JInt 0), (''disk'', JInt 50)]
     = (Some (Fin 0), Some (Fin 50))
   \<and> extract_disk_usage (\<lambda>t. None)
       [(''disk_used'', JInt 0), (''used_hdd'', JInt 0), (''disk'', JInt 50)]
     = (Some (Fin 0), Some (Fin 50))
   \<and> extract_bw_usage (\<lambda>t. None) [(''used_bw'', JInt 0), (''bandwidth'', JInt 50)]
     = (Some (Fin 0), Some (Fin 50))
   \<and> extract_disk_usage (\<lambda>t. None) [(''used_hdd'', JInt 0), (''disk'', JInt 50)]
     \<noteq> (None, None)"
  by (simp add: extract_disk_usage_def extract_bw_usage_def float_pair_def dict_get_def
      py_or_def float_of_int_0 float_of_int_50)

end
